theory Spec2Isabelle
  imports Complex_Main
begin

section \<open>Budgeted sensor placement on trees\<close>

text \<open>
  A shallow embedding of the Python package \<^verbatim>\<open>sensor_placement\<close>:
  \<^verbatim>\<open>utilities.py\<close> (leaves, subtree sizes, the brute-force reference),
  \<^verbatim>\<open>prob_err.py\<close> (the dynamic program for the error probability),
  \<^verbatim>\<open>preprocess_exp_dist.py\<close> and \<^verbatim>\<open>exp_dist.py\<close> (the dynamic program for the
  expected distance).

  Numbers: Python integers are \<open>nat\<close> or \<open>int\<close>; the floating point values of the
  source are modelled by exact rationals, and \<^verbatim>\<open>float('infinity')\<close> by a constructor of
  its own. Exceptions are values of the type \<open>error\<close>.
\<close>

subsection \<open>Undirected graphs, as networkx stores them\<close>

text \<open>
  A \<^verbatim>\<open>networkx.Graph\<close> is a dictionary from each node to its neighbours. The model keeps
  it as an association list in iteration order. A self-loop appears once in the
  neighbours of its node and counts twice in the degree, as in networkx.
\<close>

type_synonym node = nat
type_synonym graph = "(node \<times> node list) list"

datatype error = InvalidBudget | NotATree | EmptyGraph | RootNotInTree | IndexError | ValueError | OverflowError

definition nodes :: "graph \<Rightarrow> node list" where
  "nodes g = map fst g"

definition neighbors :: "graph \<Rightarrow> node \<Rightarrow> node list" where
  "neighbors g x = (case map_of g x of None \<Rightarrow> [] | Some ns \<Rightarrow> ns)"

definition degree :: "graph \<Rightarrow> node \<Rightarrow> nat" where
  "degree g x = length (neighbors g x) + length (filter (\<lambda>y. y = x) (neighbors g x))"

definition number_of_edges :: "graph \<Rightarrow> nat" where
  "number_of_edges g = sum_list (map (degree g) (nodes g)) div 2"

text \<open>
  \<^verbatim>\<open>nx.is_connected\<close>: a breadth-first search from the first node reaches every node.
  The search is run for as many rounds as the graph has nodes.
\<close>

fun plain_bfs :: "nat \<Rightarrow> graph \<Rightarrow> node list \<Rightarrow> node list" where
  "plain_bfs 0 g seen = seen"
| "plain_bfs (Suc f) g seen = plain_bfs f g (remdups (seen @ concat (map (neighbors g) seen)))"

definition is_connected :: "graph \<Rightarrow> bool" where
  "is_connected g = (length (plain_bfs (length g) g (take 1 (nodes g))) = length g)"

text \<open>
  \<^verbatim>\<open>nx.is_tree\<close> raises on the graph with no nodes and otherwise tests
  \<^verbatim>\<open>len(G) - 1 == G.number_of_edges() and is_connected(G)\<close>.
\<close>

definition is_tree :: "graph \<Rightarrow> error + bool" where
  "is_tree g =
     (if length g = 0 then Inl EmptyGraph
      else Inr (int (length g) - 1 = int (number_of_edges g) \<and> is_connected g))"

text \<open>
  What every \<^verbatim>\<open>networkx.Graph\<close> satisfies by construction: the nodes are the keys of a
  dictionary, the neighbours of a node are the keys of a dictionary of nodes of the graph,
  and an edge is stored at both of its ends. Self-loops are allowed.
\<close>

definition wf_graph :: "graph \<Rightarrow> bool" where
  "wf_graph g =
     (distinct (nodes g)
      \<and> list_all (\<lambda>(x, ns). distinct ns
            \<and> list_all (\<lambda>y. y \<in> set (nodes g) \<and> x \<in> set (neighbors g y)) ns) g)"

subsection \<open>utilities.py: leaves and subtree sizes\<close>

definition find_leaves :: "graph \<Rightarrow> node list" where
  "find_leaves g =
     (if length g = 1 then nodes g
      else filter (\<lambda>n. degree g n = 1) (nodes g))"

text \<open>
  The directed tree returned by \<^verbatim>\<open>nx.dfs_tree\<close>: every node with the ordered tuple of
  its successors. A pair (tree, node x) of the source is the subtree \<open>Node x cs\<close> hanging
  at \<open>x\<close>.
\<close>

datatype rtree = Node (label: node) (succs: "rtree list")

fun size_subtree :: "rtree \<Rightarrow> nat" where
  "size_subtree (Node u cs) = 1 + sum_list (map size_subtree cs)"

fun labels :: "rtree \<Rightarrow> node list" where
  "labels (Node u cs) = u # concat (map labels cs)"

text \<open>
  \<^verbatim>\<open>nx.dfs_tree(tree, source=root)\<close> on a tree: the depth-first search leaves a node
  towards each neighbour except the one it came from, in the order of the adjacency.
\<close>

fun dfs_from :: "nat \<Rightarrow> graph \<Rightarrow> node option \<Rightarrow> node \<Rightarrow> rtree" where
  "dfs_from 0 g p x = Node x []"
| "dfs_from (Suc f) g p x =
     Node x (map (dfs_from f g (Some x)) (filter (\<lambda>y. Some y \<noteq> p) (neighbors g x)))"

definition dfs_tree :: "graph \<Rightarrow> node \<Rightarrow> rtree" where
  "dfs_tree g rt = dfs_from (length g) g None rt"

subsection \<open>Costs with the infinity sentinel, and Python's min over (cost, tuple) pairs\<close>

datatype 'a cost = Fin 'a | Infinity

fun cost_add :: "'a::plus cost \<Rightarrow> 'a cost \<Rightarrow> 'a cost" where
  "cost_add (Fin a) (Fin b) = Fin (a + b)"
| "cost_add (Fin a) Infinity = Infinity"
| "cost_add Infinity c = Infinity"

fun cost_less :: "'a::ord cost \<Rightarrow> 'a cost \<Rightarrow> bool" where
  "cost_less (Fin a) (Fin b) = (a < b)"
| "cost_less (Fin a) Infinity = True"
| "cost_less Infinity c = False"

fun tuple_less :: "node list \<Rightarrow> node list \<Rightarrow> bool" where
  "tuple_less [] [] = False"
| "tuple_less [] (y # ys) = True"
| "tuple_less (x # xs) [] = False"
| "tuple_less (x # xs) (y # ys) = (x < y \<or> (x = y \<and> tuple_less xs ys))"

definition result_less :: "'a::ord cost \<times> node list \<Rightarrow> 'a cost \<times> node list \<Rightarrow> bool" where
  "result_less r s = (cost_less (fst r) (fst s) \<or> (fst r = fst s \<and> tuple_less (snd r) (snd s)))"

fun min_from :: "'a::ord cost \<times> node list \<Rightarrow> ('a cost \<times> node list) list \<Rightarrow> 'a cost \<times> node list" where
  "min_from best [] = best"
| "min_from best (r # rs) = min_from (if result_less r best then r else best) rs"

text \<open>\<^verbatim>\<open>min(results)\<close>; the source never calls it on an empty list.\<close>

fun py_min :: "('a::ord cost \<times> node list) list \<Rightarrow> 'a cost \<times> node list" where
  "py_min (r # rs) = min_from r rs"

definition scale :: "'a cost \<Rightarrow> ('a \<Rightarrow> rat) \<Rightarrow> nat \<Rightarrow> rat cost" where
  "scale e f n = (case e of Fin a \<Rightarrow> Fin (f a / rat_of_nat n) | Infinity \<Rightarrow> Infinity)"

subsection \<open>prob\_err.py: the dynamic program for the error probability\<close>

text \<open>
  \<open>root\<close> and \<open>budget\<close> are the graph attributes \<^verbatim>\<open>tree.graph['root']\<close> and
  \<^verbatim>\<open>tree.graph['budget']\<close>; the node attribute \<^verbatim>\<open>size\<close> is \<open>size_subtree\<close>.
\<close>

fun prob_err_opt :: "node \<Rightarrow> nat \<Rightarrow> rtree \<Rightarrow> nat \<Rightarrow> nat cost \<times> node list"
  and prob_err_optc :: "node \<Rightarrow> nat \<Rightarrow> node \<Rightarrow> nat \<Rightarrow> rtree list \<Rightarrow> nat cost \<times> node list"
where
  "prob_err_opt rt budget (Node x cs) k =
     (if k = 0 then (Fin (size_subtree (Node x cs)), [])
      else if size_subtree (Node x cs) = 1 then
        (if k > 1 then (Infinity, []) else (Fin 0, [x]))
      else
        (let eo = prob_err_optc rt budget x k cs in
         if rt \<noteq> x \<and> budget = k then (cost_add (fst eo) (Fin 1), snd eo) else eo))"
| "prob_err_optc rt budget x k [] =
     (if k > 0 then (Infinity, []) else (Fin 0, []))"
| "prob_err_optc rt budget x k (first # rest) =
     (if k = 0 then (Fin (sum_list (map size_subtree (first # rest))), [])
      else py_min (map (\<lambda>l.
             (let eo1 = prob_err_opt rt budget first l;
                  eo2 = prob_err_optc rt budget x (k - l) rest
              in (cost_add (fst eo1) (fst eo2), snd eo1 @ snd eo2)))
           [0 ..< k + 1]))"

definition non_leaves :: "graph \<Rightarrow> node list" where
  "non_leaves g = filter (\<lambda>x. x \<notin> set (find_leaves g)) (nodes g)"

text \<open>
  \<^verbatim>\<open>random.choice\<close> is modelled by its draw \<open>r\<close>: it raises on the empty sequence and
  otherwise returns the element at an index below the length.
\<close>

definition random_choice :: "nat \<Rightarrow> node list \<Rightarrow> error + node" where
  "random_choice r xs = (if xs = [] then Inl IndexError else Inr (xs ! (r mod length xs)))"

definition prob_err_optimal_placement :: "nat \<Rightarrow> graph \<Rightarrow> int \<Rightarrow> error + rat cost \<times> node list" where
  "prob_err_optimal_placement r tree budget =
     (if \<not> budget \<ge> 2 then Inl InvalidBudget
      else case is_tree tree of
        Inl e \<Rightarrow> Inl e
      | Inr False \<Rightarrow> Inl NotATree
      | Inr True \<Rightarrow>
          (let leaves = find_leaves tree in
           if budget \<ge> int (length leaves) then Inr (Fin 0, leaves)
           else case random_choice r (non_leaves tree) of
             Inl e \<Rightarrow> Inl e
           | Inr rt \<Rightarrow>
               (let directed = dfs_tree tree rt;
                    eo = prob_err_opt rt (nat budget) directed (nat budget)
                in Inr (scale (fst eo) rat_of_nat (length tree), snd eo))))"


subsection \<open>utilities.py: the brute-force reference\<close>

text \<open>
  \<^verbatim>\<open>nx.floyd_warshall(tree)[u][v]\<close> and \<^verbatim>\<open>nx.all_pairs_dijkstra_path_length(tree)[u][v]\<close>
  on an unweighted graph: the number of edges of a shortest path, found by widening the
  set of nodes reached from \<open>u\<close> one step at a time; \<open>Infinity\<close> when \<open>v\<close> is not reached.
\<close>

fun dist_upto :: "nat \<Rightarrow> graph \<Rightarrow> node list \<Rightarrow> nat \<Rightarrow> node \<Rightarrow> nat cost" where
  "dist_upto 0 g seen d v = (if v \<in> set seen then Fin d else Infinity)"
| "dist_upto (Suc f) g seen d v =
     (if v \<in> set seen then Fin d
      else dist_upto f g (remdups (seen @ concat (map (neighbors g) seen))) (Suc d) v)"

definition path_length :: "graph \<Rightarrow> node \<Rightarrow> node \<Rightarrow> nat cost" where
  "path_length g u v = dist_upto (length g) g [u] 0 v"

fun combinations :: "'a list \<Rightarrow> nat \<Rightarrow> 'a list list" where
  "combinations xs 0 = [[]]"
| "combinations [] (Suc k) = []"
| "combinations (x # xs) (Suc k) = map (Cons x) (combinations xs k) @ combinations xs (Suc k)"

text \<open>
  \<^verbatim>\<open>int((10**8)*(a - b))\<close> on floats: the difference of two infinite distances is not a
  number and an infinite difference does not fit an integer; \<^verbatim>\<open>int\<close> raises on both.
\<close>

fun scaled_diff :: "nat cost \<Rightarrow> nat cost \<Rightarrow> error + int" where
  "scaled_diff (Fin a) (Fin b) = Inr (10 ^ 8 * (int a - int b))"
| "scaled_diff Infinity Infinity = Inl ValueError"
| "scaled_diff (Fin a) Infinity = Inl OverflowError"
| "scaled_diff Infinity (Fin b) = Inl OverflowError"

fun collect :: "(error + 'a) list \<Rightarrow> error + 'a list" where
  "collect [] = Inr []"
| "collect (Inl e # xs) = Inl e"
| "collect (Inr x # xs) = (case collect xs of Inl e \<Rightarrow> Inl e | Inr ys \<Rightarrow> Inr (x # ys))"

definition signature :: "(node \<Rightarrow> node \<Rightarrow> nat cost) \<Rightarrow> node list \<Rightarrow> node \<Rightarrow> error + int list" where
  "signature dm sensors n =
     collect (map (\<lambda>v. scaled_diff (dm n v) (dm n (hd sensors))) (tl sensors))"

text \<open>
  The dictionary \<^verbatim>\<open>vector_to_n\<close> from signatures to the list of nodes that have them,
  kept in the order in which the signatures first appear.
\<close>

fun append_to :: "int list \<Rightarrow> node \<Rightarrow> (int list \<times> node list) list \<Rightarrow> (int list \<times> node list) list" where
  "append_to key n [] = [(key, [n])]"
| "append_to key n ((k, ns) # rest) =
     (if k = key then (k, ns @ [n]) # rest else (k, ns) # append_to key n rest)"

fun vector_to_n :: "(node \<Rightarrow> node \<Rightarrow> nat cost) \<Rightarrow> node list \<Rightarrow> node list
    \<Rightarrow> (int list \<times> node list) list \<Rightarrow> error + (int list \<times> node list) list" where
  "vector_to_n dm sensors [] acc = Inr acc"
| "vector_to_n dm sensors (n # ns) acc =
     (case signature dm sensors n of
        Inl e \<Rightarrow> Inl e
      | Inr key \<Rightarrow> vector_to_n dm sensors ns (append_to key n acc))"

definition equivalence_classes ::
    "(node \<Rightarrow> node \<Rightarrow> nat cost) \<Rightarrow> node list \<Rightarrow> node list \<Rightarrow> error + node list list \<times> nat list" where
  "equivalence_classes dm keys sensors =
     (case vector_to_n dm sensors keys [] of
        Inl e \<Rightarrow> Inl e
      | Inr d \<Rightarrow> (let classes = map snd d in Inr (classes, map length classes)))"

definition prob_err_from_cardinalities :: "nat list \<Rightarrow> rat" where
  "prob_err_from_cardinalities len_classes =
     (let n = rat_of_nat (sum_list len_classes)
      in foldl (\<lambda>e l. e + (rat_of_nat l - 1) / n) 0 len_classes)"

definition prob_err_step ::
    "(node \<Rightarrow> node \<Rightarrow> nat cost) \<Rightarrow> node list \<Rightarrow> error + rat cost \<times> node list \<Rightarrow> node list
     \<Rightarrow> error + rat cost \<times> node list" where
  "prob_err_step dm keys acc sensors =
     (case acc of
        Inl e \<Rightarrow> Inl e
      | Inr (opt_err, opt_sensors) \<Rightarrow>
          (case equivalence_classes dm keys sensors of
             Inl e \<Rightarrow> Inl e
           | Inr (classes, cardinalities) \<Rightarrow>
               (let err = Fin (prob_err_from_cardinalities cardinalities)
                in if cost_less err opt_err then Inr (err, sensors)
                   else Inr (opt_err, opt_sensors))))"

definition utilities_prob_err :: "graph \<Rightarrow> node list \<Rightarrow> int \<Rightarrow> error + rat cost \<times> node list" where
  "utilities_prob_err tree leaves budget =
     (if \<not> budget \<ge> 2 then Inl InvalidBudget
      else foldl (prob_err_step (path_length tree) (nodes tree)) (Inr (Fin 2, []))
             (combinations leaves (nat budget)))"

definition exp_dist_from_classes :: "(node \<Rightarrow> node \<Rightarrow> nat cost) \<Rightarrow> nat \<Rightarrow> node list list \<Rightarrow> rat cost" where
  "exp_dist_from_classes dm n classes =
     scale
       (foldl (\<lambda>e c.
          foldl (\<lambda>e uv. cost_add e
                   (scale (dm (hd uv) (hd (tl uv))) (\<lambda>d. 2 * rat_of_nat d) (length c)))
            e (combinations c 2))
        (Fin 0) classes)
       (\<lambda>e. e) n"

definition exp_dist_step ::
    "(node \<Rightarrow> node \<Rightarrow> nat cost) \<Rightarrow> node list \<Rightarrow> error + rat cost \<times> node list \<Rightarrow> node list
     \<Rightarrow> error + rat cost \<times> node list" where
  "exp_dist_step dm keys acc sensors =
     (case acc of
        Inl e \<Rightarrow> Inl e
      | Inr (opt_exp_dist, opt_sensors) \<Rightarrow>
          (case equivalence_classes dm keys sensors of
             Inl e \<Rightarrow> Inl e
           | Inr (classes, cardinalities) \<Rightarrow>
               (let exp_dist = exp_dist_from_classes dm (length keys) classes
                in if cost_less exp_dist opt_exp_dist then Inr (exp_dist, sensors)
                   else Inr (opt_exp_dist, opt_sensors))))"

definition utilities_exp_dist :: "graph \<Rightarrow> node list \<Rightarrow> int \<Rightarrow> error + rat cost \<times> node list" where
  "utilities_exp_dist tree leaves budget =
     (if \<not> budget \<ge> 2 then Inl InvalidBudget
      else
        (let dm = path_length tree;
             opt_exp_dist = foldl cost_add (Fin 0)
               (map (\<lambda>u. scale (foldl cost_add (Fin 0) (map (dm u) (nodes tree))) rat_of_nat 1)
                  (nodes tree))
         in foldl (exp_dist_step dm (nodes tree)) (Inr (opt_exp_dist, []))
              (combinations leaves (nat budget))))"


subsection \<open>preprocess\_exp\_dist.py\<close>

text \<open>
  The directed tree with its graph attributes: \<open>arcs\<close> is the tree itself, \<open>root_attr\<close>,
  \<open>budget_attr\<close> and \<open>dists\<close> are \<^verbatim>\<open>graph['root']\<close>, \<^verbatim>\<open>graph['budget']\<close> and
  \<^verbatim>\<open>graph['dists']\<close>. The node attributes \<^verbatim>\<open>size\<close>, \<^verbatim>\<open>sum_below\<close> and
  \<^verbatim>\<open>sum_above\<close> are the memoised functions that fill them.
\<close>

record digraph =
  arcs :: rtree
  root_attr :: node
  budget_attr :: nat
  dists :: "node \<Rightarrow> node \<Rightarrow> nat"

text \<open>
  A node is found in the directed tree together with the nodes above it: \<open>chain_to t x\<close>
  lists the subtree at \<open>x\<close>, the subtree at its predecessor, and so on up to the whole tree.
  It is empty when \<open>x\<close> is not a node of \<open>t\<close>. The root is the node whose chain is the tree
  alone. A function of the source that recurses on the predecessor recurses on the chain.
\<close>

fun chain_to :: "rtree \<Rightarrow> node \<Rightarrow> rtree list"
  and chain_in :: "rtree list \<Rightarrow> node \<Rightarrow> rtree list"
where
  "chain_to (Node u cs) x =
     (if u = x then [Node u cs]
      else case chain_in cs x of [] \<Rightarrow> [] | c # ch \<Rightarrow> (c # ch) @ [Node u cs])"
| "chain_in [] x = []"
| "chain_in (c # cs) x = (case chain_to c x of [] \<Rightarrow> chain_in cs x | d # ch \<Rightarrow> d # ch)"

definition predecessors :: "rtree \<Rightarrow> node \<Rightarrow> node list" where
  "predecessors t x = map label (take 1 (tl (chain_to t x)))"

definition len :: "digraph \<Rightarrow> nat" where
  "len T = size_subtree (arcs T)"

text \<open>The degree in the directed tree: predecessors and successors.\<close>

definition di_degree :: "digraph \<Rightarrow> rtree \<Rightarrow> nat" where
  "di_degree T u = length (predecessors (arcs T) (label u)) + length (succs u)"

fun sum_dist_below :: "digraph \<Rightarrow> rtree \<Rightarrow> nat" where
  "sum_dist_below T (Node u cs) =
     sum_list (map (\<lambda>c. sum_dist_below T c + dists T u (label c) * size_subtree c) cs)"

fun sum_dist_above :: "digraph \<Rightarrow> rtree list \<Rightarrow> int" where
  "sum_dist_above T (u # p # up) =
     (let above_predecessor = sum_dist_above T (p # up);
          other_children_p = int (sum_dist_below T p) - int (sum_dist_below T u)
            - int (dists T (label u) (label p) * size_subtree u);
          from_u_to_p = int (dists T (label u) (label p)) * (int (len T) - int (size_subtree u))
      in above_predecessor + other_children_p + from_u_to_p)"
| "sum_dist_above T [u] = 0"
| "sum_dist_above T [] = 0"

fun ordered_tuples :: "node list \<Rightarrow> node list list" where
  "ordered_tuples [] = [[]]"
| "ordered_tuples (c # cs) = ordered_tuples cs @ map (Cons c) (ordered_tuples cs)"

definition ordered_tuples_children :: "rtree \<Rightarrow> node list list" where
  "ordered_tuples_children x = ordered_tuples (sort (map label (succs x)))"

text \<open>The successors of a node that a tuple of node names selects, in the order of the tuple.\<close>

definition pick :: "rtree list \<Rightarrow> node list \<Rightarrow> rtree list" where
  "pick cs sel = concat (map (\<lambda>c. filter (\<lambda>s. label s = c) cs) sel)"

lemma pick_in: "c \<in> set (pick cs sel) \<Longrightarrow> c \<in> set cs"
  by (auto simp: pick_def)

lemma size_in_list: "c \<in> set cs \<Longrightarrow> size c < Suc (size_list size cs)"
  by (induction cs) auto

lemma size_pick: "c \<in> set (pick cs sel) \<Longrightarrow> size c < Suc (size_list size cs)"
  by (rule size_in_list) (rule pick_in)

function exp_distance :: "digraph \<Rightarrow> rtree \<Rightarrow> node list \<Rightarrow> int" where
  "exp_distance T (Node u cs) sel_children =
     (if di_degree T (Node u cs) = 1 \<or> length sel_children = 0 then 0
      else
        (let sel = pick cs sel_children;
             size_below = sum_list (map size_subtree sel)
         in sum_list (map (\<lambda>c. exp_distance T c (sort (map label (succs c)))) sel)
          + sum_list (map (\<lambda>c. 2 * (int (sum_dist_below T c)
                + int (dists T u (label c) * size_subtree c))
                * (int size_below - int (size_subtree c))) sel)
          + sum_list (map (\<lambda>c. 2 * (int (sum_dist_below T c)
                + int (dists T u (label c) * size_subtree c))) sel)))"
  by pat_completeness auto
termination
  by (relation "measure (\<lambda>(T, t, sel). size t)") (auto dest: size_pick)

text \<open>
  \<^verbatim>\<open>exp_distance_parent\<close> starts from the table entry of \<open>(u, sel_children)\<close>. Every call
  for a pair is made, and memoised, before the entry of that pair is normalised, so the
  entry read is \<open>exp_distance\<close>.
\<close>

fun exp_distance_parent :: "digraph \<Rightarrow> rtree list \<Rightarrow> node list \<Rightarrow> int" where
  "exp_distance_parent T (u # parent # up) sel_children =
     (let exp_dist_par = exp_distance T u sel_children;
          other_children = sort (filter (\<lambda>x. x \<noteq> label u) (map label (succs parent)));
          exp_dist_par = exp_dist_par + exp_distance_parent T (parent # up) other_children;
          sel = pick (succs u) sel_children;
          sum_below_sel = sum_list (map (\<lambda>c. int (sum_dist_below T c)
            + int (dists T (label u) (label c) * size_subtree c)) sel);
          size_above = int (len T) - int (size_subtree u);
          size_below = int (sum_list (map size_subtree sel)) + 1
      in exp_dist_par
         + 2 * (sum_below_sel * size_above + sum_dist_above T (u # parent # up) * size_below))"
| "exp_distance_parent T [u] sel_children = exp_distance T u sel_children"
| "exp_distance_parent T [] sel_children = 0"

text \<open>
  \<^verbatim>\<open>size_classes[x][sel]\<close> and \<^verbatim>\<open>size_classes[x][(p,) + sel]\<close>.
\<close>

definition size_class :: "rtree \<Rightarrow> node list \<Rightarrow> nat" where
  "size_class x sel_tuple =
     (let s = sum_list (map size_subtree (pick (succs x) sel_tuple))
      in if s \<noteq> 0 then s + 1 else s)"

definition size_class_parent :: "digraph \<Rightarrow> rtree \<Rightarrow> node list \<Rightarrow> int" where
  "size_class_parent T x sel_tuple =
     int (len T) - int (size_subtree x) + int (max (size_class x sel_tuple) 1)"

text \<open>
  The table \<^verbatim>\<open>graph['exp_dist']\<close> that \<^verbatim>\<open>preprocess\<close> leaves behind. It holds an entry
  for every sorted tuple of successors of a node, and for every such tuple with the
  predecessor in front; \<open>exp_dist_entry T x key\<close> computes the entry stored under \<open>key\<close>.
\<close>

definition exp_dist_entry :: "digraph \<Rightarrow> node \<Rightarrow> node list \<Rightarrow> rat" where
  "exp_dist_entry T x key =
     (case chain_to (arcs T) x of
        [] \<Rightarrow> 0
      | u # up \<Rightarrow>
          if up \<noteq> [] \<and> take 1 key = predecessors (arcs T) x then
            of_int (exp_distance_parent T (u # up) (tl key))
              / of_int (size_class_parent T u (tl key))
          else if key = [] then 0
          else of_int (exp_distance T u key) / rat_of_nat (size_class u key))"

definition preprocess :: "graph \<Rightarrow> node \<Rightarrow> error + digraph" where
  "preprocess tree rt =
     (if rt \<notin> set (nodes tree) then Inl RootNotInTree
      else case is_tree tree of
        Inl e \<Rightarrow> Inl e
      | Inr False \<Rightarrow> Inl NotATree
      | Inr True \<Rightarrow>
          Inr \<lparr> arcs = dfs_tree tree rt, root_attr = rt, budget_attr = 0,
                dists = (\<lambda>u v. case path_length tree u v of Fin d \<Rightarrow> d | Infinity \<Rightarrow> 0) \<rparr>)"

subsection \<open>exp\_dist.py: the dynamic program for the expected distance\<close>

fun exp_dist_opt :: "digraph \<Rightarrow> rtree \<Rightarrow> nat \<Rightarrow> rat cost \<times> node list"
  and exp_dist_optc :: "digraph \<Rightarrow> node \<Rightarrow> nat \<Rightarrow> rtree list \<Rightarrow> node list \<Rightarrow> rat cost \<times> node list"
where
  "exp_dist_opt T (Node x cs) k =
     (if di_degree T (Node x cs) = 1 then
        (if k > 1 then (Infinity, []) else (Fin 0, [x]))
      else
        (let non_sensored =
               (if root_attr T \<noteq> x \<and> budget_attr T = k then predecessors (arcs T) x else [])
         in exp_dist_optc T x k cs non_sensored))"
| "exp_dist_optc T x k [] non_sensored =
     (if k > 0 then (Infinity, [])
      else (Fin (exp_dist_entry T x
              (if length non_sensored > 1 \<and> x \<noteq> root_attr T
                  \<and> take 1 non_sensored = predecessors (arcs T) x
               then hd non_sensored # sort (tl non_sensored)
               else sort non_sensored)), []))"
| "exp_dist_optc T x k (first # rest) non_sensored =
     (if k = 0 then
        (let equiv_neighs = non_sensored @ map label (first # rest)
         in (Fin (exp_dist_entry T x
              (if length equiv_neighs > 1 \<and> x \<noteq> root_attr T
                  \<and> take 1 equiv_neighs = predecessors (arcs T) x
               then hd equiv_neighs # sort (tl equiv_neighs)
               else sort equiv_neighs)), []))
      else
        py_min (
          (if root_attr T \<noteq> x \<and> budget_attr T = k
           then map (\<lambda>c. exp_dist_opt T c k) (first # rest) else [])
          @ [exp_dist_optc T x k rest (non_sensored @ [label first])]
          @ map (\<lambda>l.
              (let eo1 = exp_dist_opt T first l;
                   eo2 = exp_dist_optc T x (k - l) rest non_sensored
               in (cost_add (fst eo1) (fst eo2), snd eo1 @ snd eo2)))
            [1 ..< min k (budget_attr T - 1) + 1]))"

definition exp_dist_optimal_placement :: "nat \<Rightarrow> graph \<Rightarrow> int \<Rightarrow> error + rat cost \<times> node list" where
  "exp_dist_optimal_placement r tree budget =
     (if \<not> budget \<ge> 2 then Inl InvalidBudget
      else
        (let leaves = find_leaves tree in
         if budget \<ge> int (length leaves) then Inr (Fin 0, leaves)
         else case random_choice r (non_leaves tree) of
           Inl e \<Rightarrow> Inl e
         | Inr rt \<Rightarrow>
             (case preprocess tree rt of
                Inl e \<Rightarrow> Inl e
              | Inr directed0 \<Rightarrow>
                  (let directed = directed0 \<lparr> budget_attr := nat budget \<rparr>;
                       eo = exp_dist_opt directed (arcs directed) (nat budget)
                   in Inr (scale (fst eo) (\<lambda>e. e) (length tree), snd eo)))))"


subsection \<open>Example trees\<close>

definition single_node :: graph where
  "single_node = [(0, [])]"

definition path5 :: graph where
  "path5 = [(0, [1]), (1, [0, 2]), (2, [1, 3]), (3, [2, 4]), (4, [3])]"

definition triangle :: graph where
  "triangle = [(0, [1, 2]), (1, [0, 2]), (2, [0, 1])]"

text \<open>A centre 0 with one leg of two nodes (1, 2) and two legs of three (3, 4, 5 and 6, 7, 8).\<close>

definition spider :: graph where
  "spider = [(0, [1, 3, 6]), (1, [0, 2]), (2, [1]), (3, [0, 4]), (4, [3, 5]), (5, [4]),
             (6, [0, 7]), (7, [6, 8]), (8, [7])]"

subsection \<open>The options of the expected-distance recurrence, in the words of the specification\<close>

text \<open>
  Sending \<open>l\<close> sensors into the first successor \<open>c0\<close> and the other \<open>k - l\<close> into the rest.
\<close>

definition send :: "digraph \<Rightarrow> node \<Rightarrow> nat \<Rightarrow> rtree \<Rightarrow> rtree list \<Rightarrow> node list \<Rightarrow> nat
    \<Rightarrow> rat cost \<times> node list" where
  "send T x k c0 rest nonsensored l =
     (cost_add (fst (exp_dist_opt T c0 l)) (fst (exp_dist_optc T x (k - l) rest nonsensored)),
      snd (exp_dist_opt T c0 l) @ snd (exp_dist_optc T x (k - l) rest nonsensored))"

text \<open>
  The options at node \<open>x\<close> with budget \<open>k > 0\<close> and successors \<open>c0 # rest\<close> still to
  process: skipping \<open>c0\<close>, which joins the successors without sensor; sending \<open>l\<close> sensors
  into \<open>c0\<close> for \<open>1 \<le> l \<le> min k (b - 1)\<close>; and, when \<open>x\<close> is not the root and \<open>k\<close> is the
  whole budget \<open>b\<close>, sending the whole budget into one of the successors.
\<close>

definition optc_options :: "digraph \<Rightarrow> node \<Rightarrow> nat \<Rightarrow> rtree \<Rightarrow> rtree list \<Rightarrow> node list
    \<Rightarrow> (rat cost \<times> node list) set" where
  "optc_options T x k c0 rest nonsensored =
     {exp_dist_optc T x k rest (nonsensored @ [label c0])}
     \<union> send T x k c0 rest nonsensored ` {l. 1 \<le> l \<and> l \<le> min k (budget_attr T - 1)}
     \<union> (if root_attr T \<noteq> x \<and> budget_attr T = k
        then (\<lambda>c. exp_dist_opt T c k) ` set (c0 # rest) else {})"

text \<open>The list \<^verbatim>\<open>results\<close> that the source builds.\<close>

definition optc_results :: "digraph \<Rightarrow> node \<Rightarrow> nat \<Rightarrow> rtree \<Rightarrow> rtree list \<Rightarrow> node list
    \<Rightarrow> (rat cost \<times> node list) list" where
  "optc_results T x k c0 rest ns =
     (if root_attr T \<noteq> x \<and> budget_attr T = k
      then map (\<lambda>c. exp_dist_opt T c k) (c0 # rest) else [])
     @ [exp_dist_optc T x k rest (ns @ [label c0])]
     @ map (send T x k c0 rest ns) [1 ..< min k (budget_attr T - 1) + 1]"

text \<open>A star with three leaves, rooted at its centre, with its distances.\<close>

definition star3 :: digraph where
  "star3 = \<lparr> arcs = Node 0 [Node 1 [], Node 2 [], Node 3 []], root_attr = 0, budget_attr = 2,
     dists = (\<lambda>u v. if u = v then 0 else if u = 0 \<or> v = 0 then 1 else 2) \<rparr>"

subsection \<open>Leaves, subtrees and the rooted view of a tree\<close>

text \<open>The leaves below a node of the directed tree: the nodes without successor.\<close>

fun leaf_labels :: "rtree \<Rightarrow> node list" where
  "leaf_labels (Node x cs) = (if cs = [] then [x] else concat (map leaf_labels cs))"

text \<open>A witness for budget \<open>k\<close> among the nodes \<open>ls\<close>: \<open>k\<close> pairwise distinct nodes of \<open>ls\<close>.\<close>

definition good_witness :: "node list \<Rightarrow> nat \<Rightarrow> node list \<Rightarrow> bool" where
  "good_witness w k ls = (length w = k \<and> distinct w \<and> set w \<subseteq> set ls)"

text \<open>All the subtrees of a directed tree, one for each node.\<close>

fun subtrees :: "rtree \<Rightarrow> rtree list" where
  "subtrees (Node x cs) = Node x cs # concat (map subtrees cs)"

text \<open>A subtree all of whose nodes have a predecessor in the directed tree.\<close>

definition inner :: "digraph \<Rightarrow> rtree \<Rightarrow> bool" where
  "inner T s = (\<forall>u\<in>set (subtrees s). length (predecessors (arcs T) (label u)) = 1)"

text \<open>
  The most sensors the expected-distance recurrence sends into one successor: its leaves,
  and at most the budget less one.
\<close>

definition cap :: "digraph \<Rightarrow> rtree \<Rightarrow> nat" where
  "cap T c = min (length (leaf_labels c)) (budget_attr T - 1)"

text \<open>
  What \<^verbatim>\<open>nx.dfs_tree\<close> returns on a tree: the directed tree holds every node of the graph
  once, and every node has as many arcs (to its successors, from its predecessor) as it
  has edges in the graph.
\<close>

definition rooted_view :: "graph \<Rightarrow> rtree \<Rightarrow> bool" where
  "rooted_view g t =
     (distinct (nodes g) \<and> distinct (labels t) \<and> set (labels t) = set (nodes g)
      \<and> list_all (\<lambda>s. degree g (label s) = length (predecessors t (label s)) + length (succs s))
           (subtrees t))"

subsection \<open>Adjacency lists of trees\<close>

text \<open>
  The notions used to show that \<open>dfs_tree\<close> returns a rooted view of a tree: the edges of
  an adjacency \<open>N\<close> on the nodes \<open>V\<close>, the degree as networkx counts it, an adjacency
  that is symmetric without repetitions, and nodes that are linked by paths.
\<close>

definition adj :: "node set \<Rightarrow> (node \<Rightarrow> node list) \<Rightarrow> (node \<times> node) set" where
  "adj V N = {(x, y). x \<in> V \<and> y \<in> set (N x)}"

definition deg :: "(node \<Rightarrow> node list) \<Rightarrow> node \<Rightarrow> nat" where
  "deg N x = length (N x) + length (filter (\<lambda>y. y = x) (N x))"

definition wf_adj :: "node set \<Rightarrow> (node \<Rightarrow> node list) \<Rightarrow> bool" where
  "wf_adj V N = (finite V
     \<and> (\<forall>x\<in>V. distinct (N x) \<and> set (N x) \<subseteq> V \<and> (\<forall>y\<in>set (N x). x \<in> set (N y))))"

definition linked :: "node set \<Rightarrow> (node \<Rightarrow> node list) \<Rightarrow> bool" where
  "linked V N = (\<forall>x\<in>V. \<forall>y\<in>V. (x, y) \<in> (adj V N)\<^sup>*)"

text \<open>
  A directed tree follows the adjacency when the successors of every node are its
  neighbours, in order, except the node it was reached from.
\<close>

fun dfs_shape :: "(node \<Rightarrow> node list) \<Rightarrow> node option \<Rightarrow> rtree \<Rightarrow> bool" where
  "dfs_shape N p (Node x cs) =
     (map label cs = filter (\<lambda>y. Some y \<noteq> p) (N x) \<and> (\<forall>c\<in>set cs. dfs_shape N (Some x) c))"

text \<open>
  A node \<open>l\<close> whose only neighbour is \<open>m\<close> is added to a directed tree as a successor of
  \<open>m\<close>, after the successors that come before \<open>l\<close> in the adjacency of \<open>m\<close> (the set \<open>A\<close>);
  \<open>cut\<close> removes it from the adjacency.
\<close>

fun graft :: "node \<Rightarrow> node \<Rightarrow> node set \<Rightarrow> rtree \<Rightarrow> rtree" where
  "graft m l A (Node x cs) =
     (if x = m
      then Node x (takeWhile (\<lambda>c. label c \<in> A) (map (graft m l A) cs)
                   @ Node l [] # dropWhile (\<lambda>c. label c \<in> A) (map (graft m l A) cs))
      else Node x (map (graft m l A) cs))"

definition cut :: "node \<Rightarrow> (node \<Rightarrow> node list) \<Rightarrow> node \<Rightarrow> node list" where
  "cut l N = (\<lambda>x. filter (\<lambda>y. y \<noteq> l) (N x))"

section \<open>Properties\<close>

subsection \<open>Budgets below two\<close>

text \<open>
  Claim C5. Whatever the tree, a budget below 2 makes each of the four entry points
  (the two optimisers and the two brute-force references) fail with \<open>InvalidBudget\<close>;
  the test on the budget is the first thing each of them does.
\<close>

theorem invalid_budget_rejected:
  assumes "budget < 2"
  shows "prob_err_optimal_placement r tree budget = Inl InvalidBudget
       \<and> exp_dist_optimal_placement r tree budget = Inl InvalidBudget
       \<and> utilities_prob_err tree leaves budget = Inl InvalidBudget
       \<and> utilities_exp_dist tree leaves budget = Inl InvalidBudget"
  using assms
  by (simp add: prob_err_optimal_placement_def exp_dist_optimal_placement_def
      utilities_prob_err_def utilities_exp_dist_def)

theorem invalid_budget_rejected_witness:
  "(1::int) < 2
   \<and> prob_err_optimal_placement 0 path5 1 = Inl InvalidBudget
   \<and> exp_dist_optimal_placement 0 path5 1 = Inl InvalidBudget
   \<and> utilities_prob_err path5 (find_leaves path5) 1 = Inl InvalidBudget
   \<and> utilities_exp_dist path5 (find_leaves path5) 1 = Inl InvalidBudget"
  using invalid_budget_rejected [of 1 0 path5 "find_leaves path5"] by simp

subsection \<open>Saturation\<close>

text \<open>
  Claim C4, as stated, asks for the result \<open>(0, leaves)\<close> at every budget that reaches the
  number of leaves. The tree with a single node has one leaf, and the budget 1 reaches
  it, but both optimisers refuse a budget below 2.
\<close>

theorem saturation_counterexample:
  "is_tree single_node = Inr True
   \<and> (1::int) \<ge> int (length (find_leaves single_node))
   \<and> prob_err_optimal_placement 0 single_node 1 \<noteq> Inr (Fin 0, find_leaves single_node)
   \<and> exp_dist_optimal_placement 0 single_node 1 \<noteq> Inr (Fin 0, find_leaves single_node)"
  by code_simp

text \<open>
  Claim C4, amended. On a tree, a budget of at least 2 that reaches the number of leaves
  makes both optimisers return the objective 0 with all the leaves as witness. The
  dynamic program is not run: the result does not depend on the draw \<open>r\<close> of the root.
\<close>

theorem saturation:
  assumes "is_tree tree = Inr True" and "2 \<le> budget"
    and "budget \<ge> int (length (find_leaves tree))"
  shows "prob_err_optimal_placement r tree budget = Inr (Fin 0, find_leaves tree)
       \<and> exp_dist_optimal_placement r tree budget = Inr (Fin 0, find_leaves tree)"
  using assms
  by (simp add: prob_err_optimal_placement_def exp_dist_optimal_placement_def)

theorem saturation_witness:
  "is_tree path5 = Inr True \<and> (2::int) \<le> 2 \<and> (2::int) \<ge> int (length (find_leaves path5))
   \<and> prob_err_optimal_placement 0 path5 2 = Inr (Fin 0, [0, 4])
   \<and> exp_dist_optimal_placement 0 path5 2 = Inr (Fin 0, [0, 4])"
proof -
  have t: "is_tree path5 = Inr True" by code_simp
  have l: "find_leaves path5 = [0, 4]" by code_simp
  have b: "(2::int) \<ge> int (length (find_leaves path5))" by (simp add: l)
  show ?thesis using saturation [OF t _ b, of 0] t b by (simp add: l)
qed

subsection \<open>Inputs that are not trees\<close>

text \<open>
  Claim C6 at the cycle on three nodes with budget 2. The graph is not a tree.
  \<open>prob_err_optimal_placement\<close> refuses it. \<open>exp_dist_optimal_placement\<close> tests the tree
  property only inside \<open>preprocess\<close>; the cycle has no leaf, the budget reaches the
  number of leaves, and the call returns \<open>(0, ())\<close> before that test.
\<close>

theorem exp_dist_accepts_cycle:
  "is_tree triangle = Inr False
   \<and> prob_err_optimal_placement 0 triangle 2 = Inl NotATree
   \<and> exp_dist_optimal_placement 0 triangle 2 = Inr (Fin 0, [])"
  by code_simp

subsection \<open>Leaves in the dynamic program for the error probability\<close>

text \<open>
  Claim C7, as stated, gives a leaf without sensor the error 0. The test \<open>k = 0\<close> comes
  first in \<open>prob_err_opt\<close> and returns the size of the subtree, which is 1 at a leaf.
\<close>

theorem prob_err_opt_leaf_counterexample:
  "size_subtree (Node 1 []) = 1
   \<and> fst (prob_err_opt 0 2 (Node 1 []) 0) = Fin 1
   \<and> fst (prob_err_opt 0 2 (Node 1 []) 0) \<noteq> Fin 0"
  by code_simp

text \<open>
  Claim C7, amended. At a leaf \<open>x\<close> (a node whose subtree has size 1) the dynamic program
  returns the error 1 with no sensor for \<open>k = 0\<close>, the error 0 with the witness \<open>(x,)\<close>
  for \<open>k = 1\<close>, and the sentinel infinity for every \<open>k \<ge> 2\<close>.
\<close>

theorem prob_err_opt_leaf:
  assumes "size_subtree x = 1"
  shows "prob_err_opt rt budget x 0 = (Fin 1, [])
       \<and> prob_err_opt rt budget x 1 = (Fin 0, [label x])
       \<and> (\<forall>k\<ge>2. prob_err_opt rt budget x k = (Infinity, []))"
  using assms by (cases x) auto

theorem prob_err_opt_leaf_witness:
  "size_subtree (Node 1 []) = 1
   \<and> prob_err_opt 0 2 (Node 1 []) 0 = (Fin 1, [])
   \<and> prob_err_opt 0 2 (Node 1 []) 1 = (Fin 0, [1])
   \<and> prob_err_opt 0 2 (Node 1 []) 2 = (Infinity, [])
   \<and> prob_err_opt 0 2 (Node 1 []) 7 = (Infinity, [])"
  using prob_err_opt_leaf [of "Node 1 []" 0 2] by simp

subsection \<open>The expected-distance optimiser against the brute-force reference\<close>

text \<open>
  Claim C2 at the spider with budget 2. The leaves are 2, 5 and 8, and the best
  placement is \<open>(5, 8)\<close> with expected distance \<open>8/27\<close>, as the brute-force reference
  finds. When the draw picks node 1 as root, \<open>exp_dist_optc\<close> at the root sends at most
  \<open>budget - 1\<close> sensors into one successor and does not try the whole budget in one
  successor, so every placement it considers has a sensor on leaf 2, and the optimiser
  returns \<open>5/9\<close>.
\<close>

theorem exp_dist_misses_brute_force:
  "is_tree spider = Inr True
   \<and> find_leaves spider = [2, 5, 8]
   \<and> random_choice 1 (non_leaves spider) = Inr 1
   \<and> exp_dist_optimal_placement 1 spider 2 = Inr (Fin (5 / 9), [5, 2])
   \<and> utilities_exp_dist spider (find_leaves spider) 2 = Inr (Fin (8 / 27), [5, 8])"
  by code_simp

text \<open>
  Claim C3 at the spider with budget 2: the draws 0 and 1 choose the non-leaf roots 0
  and 1, and the expected-distance optimiser returns \<open>8/27\<close> for the first and \<open>5/9\<close> for
  the second.
\<close>

theorem exp_dist_depends_on_root:
  "random_choice 0 (non_leaves spider) = Inr 0
   \<and> random_choice 1 (non_leaves spider) = Inr 1
   \<and> exp_dist_optimal_placement 0 spider 2 = Inr (Fin (8 / 27), [5, 8])
   \<and> exp_dist_optimal_placement 1 spider 2 = Inr (Fin (5 / 9), [5, 2])"
  by code_simp


subsection \<open>Python's min returns a least element\<close>

lemma cost_less_irrefl: "\<not> cost_less (c::'a::order cost) c"
  by (cases c) auto

lemma cost_less_trans: "cost_less (a::'a::order cost) b \<Longrightarrow> cost_less b c \<Longrightarrow> cost_less a c"
  by (cases a; cases b; cases c) auto

lemma tuple_less_irrefl: "\<not> tuple_less xs xs"
  by (induction xs) auto

lemma tuple_less_trans: "tuple_less xs ys \<Longrightarrow> tuple_less ys zs \<Longrightarrow> tuple_less xs zs"
proof (induction xs arbitrary: ys zs)
  case Nil
  then show ?case by (cases ys; cases zs) auto
next
  case (Cons x xs)
  then show ?case by (cases ys; cases zs) auto
qed

lemma result_less_irrefl: "\<not> result_less (r::'a::order cost \<times> node list) r"
  by (simp add: result_less_def cost_less_irrefl tuple_less_irrefl)

lemma result_less_trans:
  "result_less (a::'a::order cost \<times> node list) b \<Longrightarrow> result_less b c \<Longrightarrow> result_less a c"
proof -
  assume ab: "result_less a b" and bc: "result_less b c"
  consider (1) "cost_less (fst a) (fst b)" | (2) "fst a = fst b" "tuple_less (snd a) (snd b)"
    using ab unfolding result_less_def by blast
  then show ?thesis
  proof cases
    case 1
    consider (a) "cost_less (fst b) (fst c)" | (b) "fst b = fst c"
      using bc unfolding result_less_def by blast
    then show ?thesis
    proof cases
      case a
      with 1 have "cost_less (fst a) (fst c)" by (rule cost_less_trans)
      then show ?thesis unfolding result_less_def by blast
    next
      case b
      with 1 show ?thesis unfolding result_less_def by simp
    qed
  next
    case 2
    consider (a) "cost_less (fst b) (fst c)" | (b) "fst b = fst c" "tuple_less (snd b) (snd c)"
      using bc unfolding result_less_def by blast
    then show ?thesis
    proof cases
      case a
      with 2 show ?thesis unfolding result_less_def by simp
    next
      case b
      from 2(2) b(2) have "tuple_less (snd a) (snd c)" by (rule tuple_less_trans)
      with 2(1) b(1) show ?thesis unfolding result_less_def by simp
    qed
  qed
qed

lemma min_from_in: "min_from b rs \<in> set (b # rs)"
proof (induction rs arbitrary: b)
  case Nil
  show ?case by simp
next
  case (Cons r rs)
  from Cons [of "if result_less r b then r else b"] show ?case
    by (auto split: if_splits)
qed

lemma min_from_least:
  fixes b :: "'a::order cost \<times> node list"
  assumes "\<forall>s\<in>S. \<not> result_less s b"
  shows "\<forall>s\<in>S \<union> {b} \<union> set rs. \<not> result_less s (min_from b rs)"
  using assms
proof (induction rs arbitrary: b S)
  case Nil
  then show ?case by (auto simp: result_less_irrefl)
next
  case (Cons r rs)
  show ?case
  proof (cases "result_less r b")
    case True
    have "\<forall>s\<in>S \<union> {b}. \<not> result_less s r"
      using Cons.prems True result_less_trans result_less_irrefl by blast
    from Cons.IH [OF this] True show ?thesis by auto
  next
    case False
    have "\<forall>s\<in>S \<union> {r}. \<not> result_less s b"
      using Cons.prems False by auto
    from Cons.IH [OF this] False show ?thesis by auto
  qed
qed

lemma py_min_in: "rs \<noteq> [] \<Longrightarrow> py_min rs \<in> set rs"
proof (cases rs)
  case (Cons r rs')
  then show ?thesis using min_from_in [of r rs'] by simp
qed simp

lemma py_min_least:
  fixes rs :: "('a::order cost \<times> node list) list"
  assumes "s \<in> set rs"
  shows "\<not> result_less s (py_min rs)"
proof (cases rs)
  case Nil
  with assms show ?thesis by simp
next
  case (Cons r rs')
  have "\<forall>s\<in>{} \<union> {r} \<union> set rs'. \<not> result_less s (min_from r rs')"
    by (rule min_from_least) simp
  with assms Cons show ?thesis by auto
qed


subsection \<open>The options of the expected-distance recurrence\<close>

lemma send_eq:
  "(\<lambda>l. let eo1 = exp_dist_opt T c0 l; eo2 = exp_dist_optc T x (k - l) rest ns
        in (cost_add (fst eo1) (fst eo2), snd eo1 @ snd eo2)) = send T x k c0 rest ns"
  by (rule ext) (simp only: send_def Let_def)

lemma exp_dist_optc_results:
  assumes "0 < k"
  shows "exp_dist_optc T x k (c0 # rest) ns = py_min (optc_results T x k c0 rest ns)"
proof -
  from assms have k: "(k = 0) = False" by simp
  show ?thesis
    by (simp only: exp_dist_optc.simps(2) k if_False send_eq optc_results_def)
qed

lemma set_optc_results: "set (optc_results T x k c0 rest ns) = optc_options T x k c0 rest ns"
proof -
  have 1: "set [1 ..< min k (budget_attr T - 1) + 1] = {l. 1 \<le> l \<and> l \<le> min k (budget_attr T - 1)}"
    by auto
  have 2: "set (map (send T x k c0 rest ns) [1 ..< min k (budget_attr T - 1) + 1])
      = send T x k c0 rest ns ` {l. 1 \<le> l \<and> l \<le> min k (budget_attr T - 1)}"
    by (simp only: set_map 1)
  have 3: "set (if root_attr T \<noteq> x \<and> budget_attr T = k
      then map (\<lambda>c. exp_dist_opt T c k) (c0 # rest) else [])
      = (if root_attr T \<noteq> x \<and> budget_attr T = k
        then (\<lambda>c. exp_dist_opt T c k) ` set (c0 # rest) else {})"
    by (simp only: if_distrib [of set] set_map set_simps)
  have 4: "set (xs @ [s] @ ys) = {s} \<union> set ys \<union> set xs" for xs ys and s :: "rat cost \<times> node list"
    by auto
  show ?thesis
    unfolding optc_results_def optc_options_def
    by (simp only: 4 2 3)
qed


text \<open>
  Claim C8. At node \<open>x\<close> with budget \<open>k > 0\<close> and successors \<open>c0 # rest\<close>, the auxiliary
  \<open>exp_dist_optc\<close> returns a least element of exactly this set of options: skipping \<open>c0\<close>,
  sending \<open>l\<close> sensors into \<open>c0\<close> for every \<open>1 \<le> l \<le> min k (b - 1)\<close> and, when \<open>x\<close> is not
  the root and \<open>k = b\<close>, sending the whole budget into one successor. It returns one of
  the options, and no option is smaller.
\<close>

theorem exp_dist_optc_options:
  assumes "0 < k"
  shows "exp_dist_optc T x k (c0 # rest) nonsensored \<in> optc_options T x k c0 rest nonsensored
       \<and> (\<forall>s \<in> optc_options T x k c0 rest nonsensored.
             \<not> result_less s (exp_dist_optc T x k (c0 # rest) nonsensored))"
proof -
  have ne: "optc_results T x k c0 rest nonsensored \<noteq> []"
    by (simp add: optc_results_def)
  have eq: "exp_dist_optc T x k (c0 # rest) nonsensored
      = py_min (optc_results T x k c0 rest nonsensored)"
    using assms by (rule exp_dist_optc_results)
  have a: "py_min (optc_results T x k c0 rest nonsensored) \<in> optc_options T x k c0 rest nonsensored"
    using py_min_in [OF ne] by (simp only: set_optc_results)
  have b: "\<forall>s \<in> optc_options T x k c0 rest nonsensored.
       \<not> result_less s (py_min (optc_results T x k c0 rest nonsensored))"
  proof
    fix s assume "s \<in> optc_options T x k c0 rest nonsensored"
    then have "s \<in> set (optc_results T x k c0 rest nonsensored)"
      by (simp only: set_optc_results)
    then show "\<not> result_less s (py_min (optc_results T x k c0 rest nonsensored))"
      by (rule py_min_least)
  qed
  from a b show ?thesis by (simp only: eq) 
qed


theorem exp_dist_optc_options_witness:
  "(0::nat) < 2
   \<and> exp_dist_optc star3 0 2 [Node 1 [], Node 2 [], Node 3 []] [] = (Fin 1, [1, 2])
   \<and> exp_dist_optc star3 0 2 [Node 2 [], Node 3 []] [1] = (Fin 1, [2, 3])
   \<and> exp_dist_optc star3 0 2 [Node 1 [], Node 2 [], Node 3 []] []
        \<in> optc_options star3 0 2 (Node 1 []) [Node 2 [], Node 3 []] []
   \<and> \<not> result_less (exp_dist_optc star3 0 2 [Node 2 [], Node 3 []] [1])
          (exp_dist_optc star3 0 2 [Node 1 [], Node 2 [], Node 3 []] [])"
proof -
  have a: "exp_dist_optc star3 0 2 [Node 1 [], Node 2 [], Node 3 []] [] = (Fin 1, [1, 2])"
    by code_simp
  have c: "exp_dist_optc star3 0 2 [Node 2 [], Node 3 []] [1] = (Fin 1, [2, 3])"
    by code_simp
  have m: "exp_dist_optc star3 0 2 [Node 2 [], Node 3 []] ([] @ [label (Node 1 [])])
        \<in> optc_options star3 0 2 (Node 1 []) [Node 2 [], Node 3 []] []"
    unfolding optc_options_def by (intro UnI1 insertI1)
  have k: "(0::nat) < 2" by simp
  note t = exp_dist_optc_options [OF k, of star3 0 "Node 1 []" "[Node 2 [], Node 3 []]" "[]"]
  from t have 1: "exp_dist_optc star3 0 2 [Node 1 [], Node 2 [], Node 3 []] []
        \<in> optc_options star3 0 2 (Node 1 []) [Node 2 [], Node 3 []] []" by (rule conjunct1)
  from t have "\<forall>s \<in> optc_options star3 0 2 (Node 1 []) [Node 2 [], Node 3 []] [].
      \<not> result_less s (exp_dist_optc star3 0 2 (Node 1 [] # [Node 2 [], Node 3 []]) [])"
    by (rule conjunct2)
  from this m
  have "\<not> result_less (exp_dist_optc star3 0 2 [Node 2 [], Node 3 []] ([] @ [label (Node 1 [])]))
          (exp_dist_optc star3 0 2 (Node 1 [] # [Node 2 [], Node 3 []]) [])"
    by (rule bspec)
  then have 2: "\<not> result_less (exp_dist_optc star3 0 2 [Node 2 [], Node 3 []] [1])
          (exp_dist_optc star3 0 2 [Node 1 [], Node 2 [], Node 3 []] [])"
    by (simp only: append_Nil rtree.sel simp_thms)
  from k a c 1 2 show ?thesis by blast
qed


subsection \<open>The witness of the optimisers\<close>

lemma size_subtree_pos: "0 < size_subtree t"
  by (cases t) simp

lemma size_one_leaf: "size_subtree (Node x cs) = 1 \<longleftrightarrow> cs = []"
proof (cases cs)
  case (Cons c cs')
  with size_subtree_pos [of c] show ?thesis by simp
qed simp

lemma leaf_labels_subset: "set (leaf_labels t) \<subseteq> set (labels t)"
proof (induction t)
  case (Node x cs)
  then show ?case by (cases "cs = []") auto
qed

lemma leaf_labels_concat_subset:
  "set (concat (map leaf_labels cs)) \<subseteq> set (concat (map labels cs))"
  using leaf_labels_subset by fastforce

lemma cost_add_fin: "cost_add a b \<noteq> Infinity \<longleftrightarrow> a \<noteq> Infinity \<and> b \<noteq> Infinity"
  by (cases a; cases b) auto

lemma good_witness_append:
  assumes "good_witness w1 l ls1" and "good_witness w2 (k - l) ls2" and "l \<le> k"
    and "set ls1 \<inter> set ls2 = {}"
  shows "good_witness (w1 @ w2) k (ls1 @ ls2)"
  using assms unfolding good_witness_def by auto

lemma py_min_finite:
  fixes rs :: "('a::order cost \<times> node list) list"
  assumes "r \<in> set rs" and "fst r \<noteq> Infinity"
  shows "fst (py_min rs) \<noteq> Infinity"
proof
  assume inf: "fst (py_min rs) = Infinity"
  from assms(2) obtain a where "fst r = Fin a" by (cases "fst r") auto
  with inf have "result_less r (py_min rs)" by (simp add: result_less_def)
  with py_min_least [OF assms(1)] show False by simp
qed

lemma mem_upt_Suc: "l \<in> set [0 ..< k + 1] \<longleftrightarrow> l \<le> k"
  by auto

lemma in_map_upt: "r \<in> set (map f [0 ..< k + 1]) \<longleftrightarrow> (\<exists>l\<le>k. r = f l)"
  by (simp only: set_map image_iff mem_upt_Suc Bex_def)

lemma prob_err_optc_shape:
  assumes "\<And>c l. c \<in> set cs \<Longrightarrow> distinct (labels c) \<Longrightarrow> fst (prob_err_opt rt b c l) \<noteq> Infinity
             \<Longrightarrow> good_witness (snd (prob_err_opt rt b c l)) l (leaf_labels c)"
    and "distinct (concat (map labels cs))"
    and "fst (prob_err_optc rt b x k cs) \<noteq> Infinity"
  shows "good_witness (snd (prob_err_optc rt b x k cs)) k (concat (map leaf_labels cs))"
  using assms
proof (induction cs arbitrary: k)
  case Nil
  then show ?case by (auto simp: good_witness_def split: if_splits)
next
  case (Cons first rest)
  show ?case
  proof (cases "k = 0")
    case True
    then show ?thesis by (simp add: good_witness_def)
  next
    case False
    define f where "f = (\<lambda>l. (cost_add (fst (prob_err_opt rt b first l)) (fst (prob_err_optc rt b x (k - l) rest)),
                 snd (prob_err_opt rt b first l) @ snd (prob_err_optc rt b x (k - l) rest)))"
    have eq: "prob_err_optc rt b x k (first # rest) = py_min (map f [0 ..< k + 1])"
      using False by (simp add: f_def Let_def del: py_min.simps)
    have "py_min (map f [0 ..< k + 1]) \<in> set (map f [0 ..< k + 1])"
      by (rule py_min_in) simp
    then obtain l where l: "l \<le> k" and r: "prob_err_optc rt b x k (first # rest) = f l"
      unfolding eq in_map_upt by blast
    from Cons.prems(3) r have fin: "fst (prob_err_opt rt b first l) \<noteq> Infinity"
        "fst (prob_err_optc rt b x (k - l) rest) \<noteq> Infinity"
      by (simp_all add: f_def cost_add_fin)
    from Cons.prems(2) have d1: "distinct (labels first)" and d2: "distinct (concat (map labels rest))"
      and dj: "set (labels first) \<inter> set (concat (map labels rest)) = {}"
      by auto
    have g1: "good_witness (snd (prob_err_opt rt b first l)) l (leaf_labels first)"
      using Cons.prems(1) [of first l] d1 fin(1) by simp
    have g2: "good_witness (snd (prob_err_optc rt b x (k - l) rest)) (k - l) (concat (map leaf_labels rest))"
      using Cons.IH [of "k - l"] Cons.prems(1) d2 fin(2) by simp
    have "set (leaf_labels first) \<inter> set (concat (map leaf_labels rest)) = {}"
      using dj leaf_labels_subset [of first] leaf_labels_concat_subset [of rest] by blast
    from good_witness_append [OF g1 g2 l this] show ?thesis
      by (simp only: r f_def snd_conv concat.simps list.map)
  qed
qed

lemma prob_err_opt_shape:
  "distinct (labels t) \<Longrightarrow> fst (prob_err_opt rt b t k) \<noteq> Infinity
     \<Longrightarrow> good_witness (snd (prob_err_opt rt b t k)) k (leaf_labels t)"
proof (induction t arbitrary: k)
  case (Node x cs)
  show ?case
  proof (cases "k = 0")
    case True
    then show ?thesis by (simp add: good_witness_def)
  next
    case k: False
    show ?thesis
    proof (cases "cs = []")
      case True
      with k Node.prems show ?thesis by (auto simp: good_witness_def split: if_splits)
    next
      case False
      then have s: "size_subtree (Node x cs) \<noteq> 1" by (simp only: size_one_leaf) simp
      have sn: "snd (prob_err_opt rt b (Node x cs) k) = snd (prob_err_optc rt b x k cs)"
        using k s by (simp add: Let_def del: size_subtree.simps)
      have "fst (prob_err_optc rt b x k cs) \<noteq> Infinity"
        using k s Node.prems(2)
        by (auto simp add: Let_def cost_add_fin simp del: size_subtree.simps split: if_splits)
      moreover have "distinct (concat (map labels cs))" using Node.prems(1) by simp
      ultimately have "good_witness (snd (prob_err_optc rt b x k cs)) k (concat (map leaf_labels cs))"
        using Node.IH by (intro prob_err_optc_shape) auto
      with False sn show ?thesis by simp
    qed
  qed
qed

lemma prob_err_optc_finite:
  assumes "\<And>c l. c \<in> set cs \<Longrightarrow> l \<le> length (leaf_labels c) \<Longrightarrow> fst (prob_err_opt rt b c l) \<noteq> Infinity"
    and "k \<le> length (concat (map leaf_labels cs))"
  shows "fst (prob_err_optc rt b x k cs) \<noteq> Infinity"
  using assms
proof (induction cs arbitrary: k)
  case Nil
  then show ?case by simp
next
  case (Cons first rest)
  show ?case
  proof (cases "k = 0")
    case True
    then show ?thesis by simp
  next
    case False
    define f where "f = (\<lambda>l. (cost_add (fst (prob_err_opt rt b first l)) (fst (prob_err_optc rt b x (k - l) rest)),
                 snd (prob_err_opt rt b first l) @ snd (prob_err_optc rt b x (k - l) rest)))"
    have eq: "prob_err_optc rt b x k (first # rest) = py_min (map f [0 ..< k + 1])"
      using False by (simp add: f_def Let_def del: py_min.simps)
    define l where "l = min k (length (leaf_labels first))"
    have "fst (prob_err_opt rt b first l) \<noteq> Infinity"
      using Cons.prems(1) [of first l] by (simp add: l_def)
    moreover have "k - l \<le> length (concat (map leaf_labels rest))"
      using Cons.prems(2) by (simp add: l_def)
    then have "fst (prob_err_optc rt b x (k - l) rest) \<noteq> Infinity"
      using Cons.IH [of "k - l"] Cons.prems(1) by simp
    ultimately have "fst (f l) \<noteq> Infinity" by (simp add: f_def cost_add_fin)
    moreover have "f l \<in> set (map f [0 ..< k + 1])"
      unfolding in_map_upt by (rule exI [of _ l]) (simp add: l_def)
    ultimately show ?thesis unfolding eq by (rule py_min_finite [rotated])
  qed
qed

lemma prob_err_opt_finite:
  "k \<le> length (leaf_labels t) \<Longrightarrow> fst (prob_err_opt rt b t k) \<noteq> Infinity"
proof (induction t arbitrary: k)
  case (Node x cs)
  show ?case
  proof (cases "cs = []")
    case True
    with Node.prems show ?thesis by auto
  next
    case False
    then have s: "size_subtree (Node x cs) \<noteq> 1" by (simp only: size_one_leaf) simp
    have "fst (prob_err_optc rt b x k cs) \<noteq> Infinity"
      using Node.IH Node.prems False by (intro prob_err_optc_finite) auto
    then show ?thesis using s by (auto simp: Let_def cost_add_fin simp del: size_subtree.simps)
  qed
qed

lemma labels_subtrees: "labels t = map label (subtrees t)"
  by (induction t) (simp add: map_concat comp_def cong: map_cong)

lemma subtree_self: "t \<in> set (subtrees t)"
  by (cases t) simp

lemma chain_in_nonempty:
  assumes "\<And>c. c \<in> set cs \<Longrightarrow> x \<in> set (labels c) \<Longrightarrow> chain_to c x \<noteq> []"
    and "x \<in> set (concat (map labels cs))"
  shows "chain_in cs x \<noteq> []"
  using assms
proof (induction cs)
  case Nil
  then show ?case by simp
next
  case (Cons c cs)
  show ?case
  proof (cases "chain_to c x")
    case Nil
    with Cons.prems(1) [of c] have "x \<notin> set (labels c)" by auto
    with Cons.prems(2) have "x \<in> set (concat (map labels cs))" by simp
    with Cons.IH Cons.prems(1) have "chain_in cs x \<noteq> []" by simp
    with Nil show ?thesis by simp
  next
    case (Cons d ch)
    then show ?thesis by simp
  qed
qed

lemma chain_to_nonempty: "x \<in> set (labels t) \<Longrightarrow> chain_to t x \<noteq> []"
proof (induction t)
  case (Node u cs)
  show ?case
  proof (cases "u = x")
    case True
    then show ?thesis by simp
  next
    case False
    with Node.prems have "x \<in> set (concat (map labels cs))" by simp
    with Node.IH have "chain_in cs x \<noteq> []" by (intro chain_in_nonempty) auto
    with False show ?thesis by (cases "chain_in cs x") auto
  qed
qed

lemma predecessors_length:
  assumes "x \<in> set (labels t)"
  shows "length (predecessors t x) = (if x = label t then 0 else 1)"
proof (cases t)
  case (Node u cs)
  show ?thesis
  proof (cases "u = x")
    case True
    with Node show ?thesis by (simp add: predecessors_def)
  next
    case False
    with assms Node have "x \<in> set (concat (map labels cs))" by simp
    moreover have "\<And>c. c \<in> set cs \<Longrightarrow> x \<in> set (labels c) \<Longrightarrow> chain_to c x \<noteq> []"
      by (rule chain_to_nonempty)
    ultimately have "chain_in cs x \<noteq> []" by (intro chain_in_nonempty)
    then obtain c ch where "chain_in cs x = c # ch" by (cases "chain_in cs x") auto
    with False Node show ?thesis by (cases ch) (simp_all add: predecessors_def)
  qed
qed

lemma inner_child: "inner T (Node x cs) \<Longrightarrow> c \<in> set cs \<Longrightarrow> inner T c"
  by (auto simp: inner_def)

lemma inner_degree: "inner T s \<Longrightarrow> di_degree T s = 1 + length (succs s)"
  using subtree_self [of s] by (auto simp: inner_def di_degree_def)

lemma good_witness_mono: "good_witness w k ls \<Longrightarrow> set ls \<subseteq> set ls' \<Longrightarrow> good_witness w k ls'"
  by (auto simp: good_witness_def)

lemma distinct_concat_elem:
  "distinct (concat (map f cs)) \<Longrightarrow> c \<in> set cs \<Longrightarrow> distinct (f c)"
  by (induction cs) auto

lemma optc_in_options:
  assumes "0 < k"
  shows "exp_dist_optc T x k (c0 # rest) ns \<in> optc_options T x k c0 rest ns"
proof -
  have ne: "optc_results T x k c0 rest ns \<noteq> []"
    by (simp add: optc_results_def)
  from py_min_in [OF ne] show ?thesis
    by (simp only: set_optc_results exp_dist_optc_results [OF assms])
qed

lemma optc_options_cases:
  assumes "r \<in> optc_options T x k c0 rest ns"
  obtains (skip) "r = exp_dist_optc T x k rest (ns @ [label c0])"
  | (send) l where "1 \<le> l" "l \<le> min k (budget_attr T - 1)" "r = send T x k c0 rest ns l"
  | (all) c where "c \<in> set (c0 # rest)" "budget_attr T = k" "r = exp_dist_opt T c k"
  using assms unfolding optc_options_def
  by (auto simp del: exp_dist_opt.simps exp_dist_optc.simps split: if_splits)

lemma exp_dist_optc_shape:
  assumes "\<And>c l. c \<in> set cs \<Longrightarrow> distinct (labels c) \<Longrightarrow> 1 \<le> l
             \<Longrightarrow> fst (exp_dist_opt T c l) \<noteq> Infinity
             \<Longrightarrow> good_witness (snd (exp_dist_opt T c l)) l (leaf_labels c)"
    and "distinct (concat (map labels cs))"
    and "fst (exp_dist_optc T x k cs ns) \<noteq> Infinity"
    and "2 \<le> budget_attr T"
  shows "good_witness (snd (exp_dist_optc T x k cs ns)) k (concat (map leaf_labels cs))"
  using assms(1,2,3)
proof (induction cs arbitrary: k ns)
  case Nil
  then show ?case by (auto simp: good_witness_def split: if_splits)
next
  case (Cons first rest)
  show ?case
  proof (cases "k = 0")
    case True
    then show ?thesis by (simp add: good_witness_def Let_def)
  next
    case False
    then have k: "0 < k" by simp
    let ?r = "exp_dist_optc T x k (first # rest) ns"
    have "?r \<in> optc_options T x k first rest ns"
      using k by (rule optc_in_options)
    then consider (skip) "?r = exp_dist_optc T x k rest (ns @ [label first])"
      | (send) l where "1 \<le> l" "l \<le> min k (budget_attr T - 1)" "?r = send T x k first rest ns l"
      | (all) c where "c \<in> set (first # rest)" "budget_attr T = k" "?r = exp_dist_opt T c k"
      by (rule optc_options_cases)
    then show ?thesis
    proof cases
      case skip
      from Cons.prems(2) have d2: "distinct (concat (map labels rest))" by auto
      have "good_witness (snd (exp_dist_optc T x k rest (ns @ [label first]))) k
          (concat (map leaf_labels rest))"
        using Cons.IH [of k "ns @ [label first]"] Cons.prems(1) d2 Cons.prems(3) skip by simp
      then show ?thesis unfolding skip by (rule good_witness_mono) auto
    next
      case send
      from Cons.prems(3) send(3) have fin: "fst (exp_dist_opt T first l) \<noteq> Infinity"
        "fst (exp_dist_optc T x (k - l) rest ns) \<noteq> Infinity"
        by (simp_all add: send_def cost_add_fin)
      from Cons.prems(2) have d1: "distinct (labels first)" and d2: "distinct (concat (map labels rest))"
        and dj: "set (labels first) \<inter> set (concat (map labels rest)) = {}"
        by auto
      have g1: "good_witness (snd (exp_dist_opt T first l)) l (leaf_labels first)"
        using Cons.prems(1) [of first l] d1 fin(1) send(1) by simp
      have g2: "good_witness (snd (exp_dist_optc T x (k - l) rest ns)) (k - l)
          (concat (map leaf_labels rest))"
        using Cons.IH [of "k - l" ns] Cons.prems(1) d2 fin(2) by simp
      have "set (leaf_labels first) \<inter> set (concat (map leaf_labels rest)) = {}"
        using dj leaf_labels_subset [of first] leaf_labels_concat_subset [of rest] by blast
      from good_witness_append [OF g1 g2 _ this] send(2) show ?thesis
        by (simp only: send(3) send_def snd_conv concat.simps list.map min.bounded_iff)
    next
      case all
      from Cons.prems(2) all(1) have "distinct (labels c)" by (rule distinct_concat_elem)
      moreover from all(2) assms(4) have "1 \<le> k" by simp
      moreover from Cons.prems(3) all(3) have "fst (exp_dist_opt T c k) \<noteq> Infinity" by simp
      ultimately have gw: "good_witness (snd (exp_dist_opt T c k)) k (leaf_labels c)"
        using Cons.prems(1) [OF all(1)] by simp
      note gw
      moreover have "set (leaf_labels c) \<subseteq> set (concat (map leaf_labels (first # rest)))"
        using all(1) by auto
      ultimately show ?thesis unfolding all(3) by (rule good_witness_mono)
    qed
  qed
qed

lemma exp_dist_opt_shape:
  "inner T s \<Longrightarrow> distinct (labels s) \<Longrightarrow> 1 \<le> k \<Longrightarrow> 2 \<le> budget_attr T
     \<Longrightarrow> fst (exp_dist_opt T s k) \<noteq> Infinity
     \<Longrightarrow> good_witness (snd (exp_dist_opt T s k)) k (leaf_labels s)"
proof (induction s arbitrary: k)
  case (Node x cs)
  from Node.prems(1) have deg: "di_degree T (Node x cs) = 1 + length cs"
    by (simp add: inner_degree)
  show ?case
  proof (cases "cs = []")
    case True
    with deg Node.prems(3,5) show ?thesis
      by (auto simp: good_witness_def split: if_splits)
  next
    case False
    with deg have ne: "di_degree T (Node x cs) \<noteq> 1" by simp
    obtain ns where eq: "exp_dist_opt T (Node x cs) k = exp_dist_optc T x k cs ns"
      using ne by (simp add: Let_def)
    have "good_witness (snd (exp_dist_optc T x k cs ns)) k (concat (map leaf_labels cs))"
    proof (rule exp_dist_optc_shape)
      fix c l
      assume "c \<in> set cs" "distinct (labels c)" "1 \<le> l" "fst (exp_dist_opt T c l) \<noteq> Infinity"
      with Node.IH [of c l] inner_child [OF Node.prems(1)] Node.prems(4)
      show "good_witness (snd (exp_dist_opt T c l)) l (leaf_labels c)" by simp
    next
      show "distinct (concat (map labels cs))" using Node.prems(2) by simp
      show "fst (exp_dist_optc T x k cs ns) \<noteq> Infinity" using Node.prems(5) eq by simp
      show "2 \<le> budget_attr T" by (rule Node.prems(4))
    qed
    with False eq show ?thesis by simp
  qed
qed

lemma exp_dist_optc_finite:
  assumes "\<And>c l. c \<in> set cs \<Longrightarrow> 1 \<le> l \<Longrightarrow> l \<le> cap T c \<Longrightarrow> fst (exp_dist_opt T c l) \<noteq> Infinity"
    and "k \<le> sum_list (map (cap T) cs)"
  shows "fst (exp_dist_optc T x k cs ns) \<noteq> Infinity"
  using assms
proof (induction cs arbitrary: k ns)
  case Nil
  then show ?case by simp
next
  case (Cons first rest)
  show ?case
  proof (cases "k = 0")
    case True
    then show ?thesis by (simp add: Let_def)
  next
    case False
    then have k: "0 < k" by simp
    have eq: "exp_dist_optc T x k (first # rest) ns = py_min (optc_results T x k first rest ns)"
      using k by (rule exp_dist_optc_results)
    show ?thesis
    proof (cases "k \<le> sum_list (map (cap T) rest)")
      case True
      have "fst (exp_dist_optc T x k rest (ns @ [label first])) \<noteq> Infinity"
        using Cons.IH [of k] Cons.prems(1) True by simp
      moreover have "exp_dist_optc T x k rest (ns @ [label first])
          \<in> set (optc_results T x k first rest ns)"
        unfolding set_optc_results optc_options_def by blast
      ultimately show ?thesis unfolding eq by (rule py_min_finite [rotated])
    next
      case False
      define l where "l = k - sum_list (map (cap T) rest)"
      from False Cons.prems(2) have l: "1 \<le> l" "l \<le> cap T first" "l \<le> k"
        "k - l = sum_list (map (cap T) rest)"
        by (simp_all add: l_def)
      from l(2) have "l \<le> budget_attr T - 1" by (simp add: cap_def)
      with l have rng: "1 \<le> l \<and> l \<le> min k (budget_attr T - 1)" by simp
      have "fst (exp_dist_opt T first l) \<noteq> Infinity"
        using Cons.prems(1) [of first l] l by simp
      moreover have "fst (exp_dist_optc T x (k - l) rest ns) \<noteq> Infinity"
        using Cons.IH [of "k - l" ns] Cons.prems(1) l(4) by simp
      ultimately have "fst (send T x k first rest ns l) \<noteq> Infinity"
        by (simp add: send_def cost_add_fin)
      moreover have "send T x k first rest ns l \<in> set (optc_results T x k first rest ns)"
        unfolding set_optc_results optc_options_def using rng by blast
      ultimately show ?thesis unfolding eq by (rule py_min_finite [rotated])
    qed
  qed
qed

lemma sum_min_le: "min (sum_list (map f cs)) (m::nat) \<le> sum_list (map (\<lambda>c. min (f c) m) cs)"
  by (induction cs) auto

lemma length_leaf_labels_concat:
  "length (concat (map leaf_labels cs)) = sum_list (map (\<lambda>c. length (leaf_labels c)) cs)"
  by (simp add: length_concat comp_def)

lemma exp_dist_opt_finite:
  "inner T s \<Longrightarrow> 1 \<le> k \<Longrightarrow> k \<le> cap T s \<Longrightarrow> fst (exp_dist_opt T s k) \<noteq> Infinity"
proof (induction s arbitrary: k)
  case (Node x cs)
  from Node.prems(1) have deg: "di_degree T (Node x cs) = 1 + length cs"
    by (simp add: inner_degree)
  show ?case
  proof (cases "cs = []")
    case True
    with deg Node.prems(2,3) show ?thesis by (auto simp: cap_def)
  next
    case False
    with deg have ne: "di_degree T (Node x cs) \<noteq> 1" by simp
    obtain ns where eq: "exp_dist_opt T (Node x cs) k = exp_dist_optc T x k cs ns"
      using ne by (simp add: Let_def)
    have "k \<le> min (sum_list (map (\<lambda>c. length (leaf_labels c)) cs)) (budget_attr T - 1)"
      using Node.prems(3) False by (simp add: cap_def length_leaf_labels_concat)
    also have "\<dots> \<le> sum_list (map (cap T) cs)"
      unfolding cap_def by (rule sum_min_le)
    finally have "k \<le> sum_list (map (cap T) cs)" .
    moreover have "\<And>c l. c \<in> set cs \<Longrightarrow> 1 \<le> l \<Longrightarrow> l \<le> cap T c
        \<Longrightarrow> fst (exp_dist_opt T c l) \<noteq> Infinity"
      using Node.IH inner_child [OF Node.prems(1)] by simp
    ultimately have "fst (exp_dist_optc T x k cs ns) \<noteq> Infinity"
      by (intro exp_dist_optc_finite)
    with eq show ?thesis by simp
  qed
qed

lemma label_dfs_tree: "label (dfs_tree g rt) = rt"
  by (cases "length g") (simp_all add: dfs_tree_def)

lemma random_choice_mem: "random_choice r xs = Inr x \<Longrightarrow> x \<in> set xs"
  by (auto simp: random_choice_def split: if_splits)

lemma length_nodes: "length (nodes g) = length g"
  by (simp add: nodes_def)

lemma sum_list_all_one: "\<forall>x\<in>set xs. f x = (1::nat) \<Longrightarrow> sum_list (map f xs) = length xs"
  by (induction xs) auto

lemma non_leaves_nonempty:
  assumes "is_tree g = Inr True" and "3 \<le> length (find_leaves g)"
  shows "non_leaves g \<noteq> []"
proof
  assume e: "non_leaves g = []"
  have le: "length (find_leaves g) \<le> length g"
    by (simp add: find_leaves_def length_nodes [symmetric] del: length_nodes)
  have n1: "length g \<noteq> 1"
  proof
    assume "length g = 1"
    then have "length (find_leaves g) = 1" by (simp add: find_leaves_def length_nodes)
    with assms(2) show False by simp
  qed
  from e have "\<forall>x\<in>set (nodes g). x \<in> set (find_leaves g)"
    by (auto simp: non_leaves_def filter_empty_conv)
  with n1 have "\<forall>x\<in>set (nodes g). degree g x = 1"
    by (auto simp: find_leaves_def)
  then have "sum_list (map (degree g) (nodes g)) = length g"
    using sum_list_all_one [of "nodes g" "degree g"] by (simp add: length_nodes)
  then have "number_of_edges g = length g div 2" by (simp add: number_of_edges_def)
  with assms(1) have "int (length g) - 1 = int (length g div 2)"
    by (auto simp: is_tree_def split: if_splits)
  then have "length g \<le> 2" by linarith
  with le assms(2) show False by simp
qed

lemma subtree_label_in: "u \<in> set (subtrees s) \<Longrightarrow> label u \<in> set (labels s)"
  by (simp add: labels_subtrees)

lemma subtree_label_eq:
  assumes "distinct (labels t)" and "u \<in> set (subtrees t)" and "label u = label t"
  shows "u = t"
proof -
  from assms(1) have "inj_on label (set (subtrees t))"
    by (simp add: labels_subtrees distinct_map)
  with assms(2,3) subtree_self [of t] show ?thesis by (auto dest: inj_onD)
qed

lemma rooted_view_degree:
  assumes "rooted_view g t" and "u \<in> set (subtrees t)"
  shows "degree g (label u) = (if u = t then 0 else 1) + length (succs u)"
proof -
  from assms have d: "degree g (label u) = length (predecessors t (label u)) + length (succs u)"
    by (auto simp: rooted_view_def list_all_iff)
  from assms(1) have dl: "distinct (labels t)" by (simp add: rooted_view_def)
  have "length (predecessors t (label u)) = (if label u = label t then 0 else 1)"
    using assms(2) by (intro predecessors_length subtree_label_in)
  moreover have "label u = label t \<longleftrightarrow> u = t"
    using subtree_label_eq [OF dl assms(2)] by auto
  ultimately show ?thesis using d by simp
qed

lemma root_two_successors:
  assumes "rooted_view g t" and "label t \<in> set (non_leaves g)" and "length g \<noteq> 1"
  shows "2 \<le> length (succs t)"
proof -
  have d: "degree g (label t) = length (succs t)"
    using rooted_view_degree [OF assms(1) subtree_self] by simp
  from assms(2,3) have "degree g (label t) \<noteq> 1"
    by (auto simp: non_leaves_def find_leaves_def)
  moreover have "succs t \<noteq> []"
  proof
    assume "succs t = []"
    then have "labels t = [label t]" by (cases t) simp
    with assms(1) have "set (nodes g) = {label t}" "distinct (nodes g)"
      by (auto simp: rooted_view_def)
    then have "length (nodes g) = 1" using distinct_card [of "nodes g"] by simp
    with assms(3) show False by (simp add: length_nodes)
  qed
  ultimately have "length (succs t) \<noteq> 1" "length (succs t) \<noteq> 0" using d by simp_all
  then show ?thesis by arith
qed

lemma leaf_labels_filter:
  "\<forall>u\<in>set (subtrees s). (degree g (label u) = 1) = (succs u = [])
     \<Longrightarrow> leaf_labels s = filter (\<lambda>x. degree g x = 1) (labels s)"
proof (induction s)
  case (Node x cs)
  show ?case
  proof (cases "cs = []")
    case True
    with Node.prems show ?thesis by simp
  next
    case False
    from Node.prems False have nx: "degree g x \<noteq> 1" by auto
    have "\<And>c. c \<in> set cs \<Longrightarrow> leaf_labels c = filter (\<lambda>x. degree g x = 1) (labels c)"
      using Node.IH Node.prems by auto
    then have "concat (map leaf_labels cs)
        = concat (map (\<lambda>c. filter (\<lambda>x. degree g x = 1) (labels c)) cs)"
      by (simp cong: map_cong)
    with False nx show ?thesis by (simp add: filter_concat comp_def)
  qed
qed

lemma rooted_view_leaves:
  assumes "rooted_view g t" and "2 \<le> length (succs t)" and "length g \<noteq> 1"
  shows "set (leaf_labels t) = set (find_leaves g)"
    and "length (leaf_labels t) = length (find_leaves g)"
proof -
  have "\<forall>u\<in>set (subtrees t). (degree g (label u) = 1) = (succs u = [])"
  proof
    fix u assume u: "u \<in> set (subtrees t)"
    show "(degree g (label u) = 1) = (succs u = [])"
      using rooted_view_degree [OF assms(1) u] assms(2) by (cases "u = t") auto
  qed
  then have eq: "leaf_labels t = filter (\<lambda>x. degree g x = 1) (labels t)"
    by (rule leaf_labels_filter)
  from assms(1) have s: "set (labels t) = set (nodes g)" and d1: "distinct (labels t)"
    and d2: "distinct (nodes g)" by (simp_all add: rooted_view_def)
  show 1: "set (leaf_labels t) = set (find_leaves g)"
    using assms(3) s by (simp add: eq find_leaves_def)
  have "distinct (leaf_labels t)" "distinct (find_leaves g)"
    using d1 d2 by (simp_all add: eq find_leaves_def)
  then show "length (leaf_labels t) = length (find_leaves g)"
    using 1 distinct_card [of "leaf_labels t"] distinct_card [of "find_leaves g"] by simp
qed

lemma rooted_view_inner:
  assumes "distinct (labels t)" and "arcs T = t" and "c \<in> set (succs t)"
  shows "inner T c"
  unfolding inner_def
proof
  fix u assume u: "u \<in> set (subtrees c)"
  obtain x cs where t: "t = Node x cs" by (cases t)
  from u have "label u \<in> set (labels c)" by (rule subtree_label_in)
  with assms(1,3) t have "label u \<in> set (labels t)" "label u \<noteq> label t" by auto
  then show "length (predecessors (arcs T) (label u)) = 1"
    using predecessors_length [of "label u" t] assms(2) by simp
qed

lemma leaf_labels_nonempty: "leaf_labels t \<noteq> []"
proof (induction t)
  case (Node x cs)
  then show ?case by (cases cs) auto
qed

lemma min_split_sum:
  fixes a s m b :: nat
  assumes "1 \<le> a" "1 \<le> s" "1 \<le> m" "m + 1 < a + s"
  shows "m + 1 \<le> min a m + min s m"
  using assms by (auto simp: min_def)

lemma cap_sum:
  assumes "2 \<le> length cs" and "2 \<le> budget_attr T"
    and "budget_attr T < length (concat (map leaf_labels cs))"
  shows "budget_attr T \<le> sum_list (map (cap T) cs)"
proof -
  obtain c cs' where cs: "cs = c # cs'"
    using assms(1) by (cases cs) auto
  with assms(1) have "1 \<le> length cs'" by simp
  then have ne: "cs' \<noteq> []" by auto
  let ?m = "budget_attr T - 1"
  let ?a = "length (leaf_labels c)"
  let ?s = "sum_list (map (\<lambda>c. length (leaf_labels c)) cs')"
  have a: "1 \<le> ?a" using leaf_labels_nonempty [of c] by (cases "leaf_labels c") auto
  obtain d ds where "cs' = d # ds" using ne by (cases cs') auto
  then have s: "1 \<le> ?s" using leaf_labels_nonempty [of d] by (cases "leaf_labels d") auto
  have tot: "?m + 1 < ?a + ?s"
    using assms(2,3) by (simp add: cs length_leaf_labels_concat)
  have "budget_attr T = ?m + 1" using assms(2) by simp
  also have "\<dots> \<le> min ?a ?m + min ?s ?m"
    using a s _ tot by (rule min_split_sum) (use assms(2) in simp)
  also have "min ?s ?m \<le> sum_list (map (\<lambda>c. min (length (leaf_labels c)) ?m) cs')"
    by (rule sum_min_le)
  finally have "budget_attr T \<le> min ?a ?m
      + sum_list (map (\<lambda>c. min (length (leaf_labels c)) ?m) cs')" by simp
  moreover have "cap T = (\<lambda>c. min (length (leaf_labels c)) ?m)"
    by (rule ext) (simp add: cap_def)
  ultimately show ?thesis by (simp add: cs)
qed

lemma non_leaves_nodes: "rt \<in> set (non_leaves g) \<Longrightarrow> rt \<in> set (nodes g)"
  by (simp add: non_leaves_def)

lemma prob_err_root:
  assumes "distinct (labels t)" and "b \<le> length (leaf_labels t)"
  shows "\<exists>a. fst (prob_err_opt rt b t b) = Fin a"
    and "good_witness (snd (prob_err_opt rt b t b)) b (leaf_labels t)"
proof -
  have fin: "fst (prob_err_opt rt b t b) \<noteq> Infinity"
    using assms(2) by (rule prob_err_opt_finite)
  then show "\<exists>a. fst (prob_err_opt rt b t b) = Fin a"
    by (cases "fst (prob_err_opt rt b t b)") auto
  from assms(1) fin show "good_witness (snd (prob_err_opt rt b t b)) b (leaf_labels t)"
    by (rule prob_err_opt_shape)
qed

lemma exp_dist_root:
  assumes dl: "distinct (labels t)" and T: "arcs T = t" "root_attr T = label t"
    and two: "2 \<le> length (succs t)" and b: "2 \<le> budget_attr T"
    "budget_attr T < length (leaf_labels t)"
  shows "\<exists>a. fst (exp_dist_opt T t (budget_attr T)) = Fin a"
    and "good_witness (snd (exp_dist_opt T t (budget_attr T))) (budget_attr T) (leaf_labels t)"
proof -
  obtain x cs where tn: "t = Node x cs" by (cases t)
  from two tn have cs: "cs \<noteq> []" "2 \<le> length cs" by auto
  have "length (predecessors t (label t)) = 0"
    using predecessors_length [of "label t" t] by (cases t) simp
  then have deg: "di_degree T (Node x cs) \<noteq> 1"
    using two tn T(1) by (simp add: di_degree_def)
  have eq: "exp_dist_opt T t (budget_attr T) = exp_dist_optc T x (budget_attr T) cs []"
    using deg T(2) tn by (simp add: Let_def)
  have inn: "\<And>c. c \<in> set cs \<Longrightarrow> inner T c"
    using rooted_view_inner [OF dl T(1)] tn by simp
  have lf: "leaf_labels t = concat (map leaf_labels cs)" using tn cs by simp
  have "budget_attr T \<le> sum_list (map (cap T) cs)"
    using cs(2) b(1) b(2) unfolding lf by (rule cap_sum)
  moreover have "\<And>c l. c \<in> set cs \<Longrightarrow> 1 \<le> l \<Longrightarrow> l \<le> cap T c
      \<Longrightarrow> fst (exp_dist_opt T c l) \<noteq> Infinity"
    using inn by (rule exp_dist_opt_finite)
  ultimately have fin: "fst (exp_dist_optc T x (budget_attr T) cs []) \<noteq> Infinity"
    by (intro exp_dist_optc_finite)
  then show "\<exists>a. fst (exp_dist_opt T t (budget_attr T)) = Fin a"
    unfolding eq by (cases "fst (exp_dist_optc T x (budget_attr T) cs [])") auto
  have "good_witness (snd (exp_dist_optc T x (budget_attr T) cs [])) (budget_attr T)
      (concat (map leaf_labels cs))"
  proof (rule exp_dist_optc_shape)
    fix c l
    assume "c \<in> set cs" "distinct (labels c)" "1 \<le> l" "fst (exp_dist_opt T c l) \<noteq> Infinity"
    with inn [of c] b(1) show "good_witness (snd (exp_dist_opt T c l)) l (leaf_labels c)"
      by (intro exp_dist_opt_shape)
  next
    show "distinct (concat (map labels cs))" using dl tn by simp
    show "fst (exp_dist_optc T x (budget_attr T) cs []) \<noteq> Infinity" by (rule fin)
    show "2 \<le> budget_attr T" by (rule b(1))
  qed
  then show "good_witness (snd (exp_dist_opt T t (budget_attr T))) (budget_attr T) (leaf_labels t)"
    unfolding eq lf .
qed

subsection \<open>The depth-first tree of a tree is a rooted view\<close>

lemma label_graft: "label (graft m l A t) = label t"
  by (cases t) simp

lemma count_list_concat:
  "count_list (concat xss) a = sum_list (map (\<lambda>xs. count_list xs a) xss)"
  by (induction xss) simp_all

lemma distinct_count_list: "distinct xs \<longleftrightarrow> (\<forall>a. count_list xs a \<le> 1)"
proof (induction xs)
  case Nil
  show ?case by simp
next
  case (Cons x xs)
  show ?case
  proof
    assume d: "distinct (x # xs)"
    then have "count_list xs x = 0" by (simp add: count_list_0_iff)
    with d Cons show "\<forall>a. count_list (x # xs) a \<le> 1" by simp
  next
    assume c: "\<forall>a. count_list (x # xs) a \<le> 1"
    from c [rule_format, of x] have "count_list xs x = 0" by simp
    then have "x \<notin> set xs" by (simp add: count_list_0_iff)
    moreover have "\<forall>a. count_list xs a \<le> 1"
    proof
      fix a from c [rule_format, of a] show "count_list xs a \<le> 1" by (simp split: if_splits)
    qed
    ultimately show "distinct (x # xs)" using Cons by simp
  qed
qed

lemma count_list_pos: "0 < count_list xs a \<longleftrightarrow> a \<in> set xs"
  using count_list_0_iff [of xs a] by auto

lemma count_labels_insert:
  "count_list (concat (map labels (xs @ t # ys))) a
     = count_list (concat (map labels (xs @ ys))) a + count_list (labels t) a"
  by simp

lemma count_labels_graft:
  "count_list (labels (graft m l A t)) a
     = count_list (labels t) a + (if a = l then count_list (labels t) m else 0)"
proof (induction t)
  case (Node x cs)
  let ?cs = "map (graft m l A) cs"
  let ?P = "\<lambda>c. label c \<in> A"
  have ch: "count_list (concat (map labels ?cs)) a
      = count_list (concat (map labels cs)) a
        + (if a = l then count_list (concat (map labels cs)) m else 0)"
  proof -
    have "count_list (concat (map labels ?cs)) a
        = sum_list (map (\<lambda>c. count_list (labels (graft m l A c)) a) cs)"
      by (simp add: count_list_concat comp_def)
    also have "\<dots> = sum_list (map (\<lambda>c. count_list (labels c) a
          + (if a = l then count_list (labels c) m else 0)) cs)"
      using Node.IH by (simp cong: map_cong)
    also have "\<dots> = sum_list (map (\<lambda>c. count_list (labels c) a) cs)
          + sum_list (map (\<lambda>c. if a = l then count_list (labels c) m else 0) cs)"
      by (rule sum_list_addf)
    also have "sum_list (map (\<lambda>c. if a = l then count_list (labels c) m else 0) cs)
          = (if a = l then count_list (concat (map labels cs)) m else 0)"
      by (simp add: count_list_concat comp_def)
    finally show ?thesis by (simp add: count_list_concat comp_def)
  qed
  show ?case
  proof (cases "x = m")
    case False
    then show ?thesis using ch by simp
  next
    case True
    define C where
      "C = count_list (concat (map labels (takeWhile ?P ?cs @ Node l [] # dropWhile ?P ?cs))) a"
    define C0 where "C0 = count_list (concat (map labels ?cs)) a"
    have "C = count_list (concat (map labels (takeWhile ?P ?cs @ dropWhile ?P ?cs))) a
          + count_list (labels (Node l [])) a"
      unfolding C_def by (rule count_labels_insert)
    also have "takeWhile ?P ?cs @ dropWhile ?P ?cs = ?cs" by (rule takeWhile_dropWhile_id)
    finally have e1: "C = C0 + (if a = l then 1 else 0)"
      unfolding C0_def by simp
    have e2: "labels (graft m l A (Node x cs))
        = x # concat (map labels (takeWhile ?P ?cs @ Node l [] # dropWhile ?P ?cs))"
      using True by (simp del: map_append concat_append)
    have e3: "count_list (labels (graft m l A (Node x cs))) a = (if x = a then C + 1 else C)"
      unfolding C_def e2 by (simp only: count_list.simps)
    have e4: "C0 = count_list (concat (map labels cs)) a
        + (if a = l then count_list (concat (map labels cs)) m else 0)"
      unfolding C0_def by (rule ch)
    have e5: "count_list (labels (Node x cs)) a
        = (if x = a then count_list (concat (map labels cs)) a + 1
           else count_list (concat (map labels cs)) a)"
      by simp
    have e6: "count_list (labels (Node x cs)) m = count_list (concat (map labels cs)) m + 1"
      using True by simp
    show ?thesis unfolding e3 e5 e6 e1 e4 by simp
  qed
qed

lemma take_drop_While_split:
  "map f cs = xs @ ys \<Longrightarrow> \<forall>x\<in>set xs. x \<in> A \<Longrightarrow> \<forall>y\<in>set ys. y \<notin> A
     \<Longrightarrow> map f (takeWhile (\<lambda>c. f c \<in> A) cs) = xs \<and> map f (dropWhile (\<lambda>c. f c \<in> A) cs) = ys"
proof (induction xs arbitrary: cs)
  case Nil
  then show ?case by (cases cs) auto
next
  case (Cons x xs)
  then obtain c cs' where cs: "cs = c # cs'" by (cases cs) auto
  with Cons.prems have "map f cs' = xs @ ys" "f c = x" "x \<in> A" by auto
  with Cons.IH [of cs'] Cons.prems show ?case by (simp add: cs)
qed

lemma dfs_shape_transfer:
  "dfs_shape N' p t \<Longrightarrow> \<forall>x\<in>set (labels t). N' x = N x \<Longrightarrow> dfs_shape N p t"
proof (induction t arbitrary: p)
  case (Node x cs)
  then show ?case by auto
qed

lemma dfs_shape_graft:
  assumes Nm: "N m = as @ l # bs" and dm: "distinct (N m)" and Nl: "N l = [m]"
  shows "dfs_shape (\<lambda>x. filter (\<lambda>y. y \<noteq> l) (N x)) p t \<Longrightarrow> p \<noteq> Some l
     \<Longrightarrow> \<forall>x\<in>set (labels t). x \<noteq> l \<and> (x \<noteq> m \<longrightarrow> l \<notin> set (N x))
     \<Longrightarrow> dfs_shape N p (graft m l (set as) t)"
proof (induction t arbitrary: p)
  case (Node x cs)
  let ?N' = "\<lambda>x. filter (\<lambda>y. y \<noteq> l) (N x)"
  let ?cs = "map (graft m l (set as)) cs"
  let ?P = "\<lambda>c. label c \<in> set as"
  from Node.prems(1) have lab: "map label cs = filter (\<lambda>y. Some y \<noteq> p) (?N' x)"
    and sh: "\<And>c. c \<in> set cs \<Longrightarrow> dfs_shape ?N' (Some x) c" by auto
  from Node.prems(3) have xl: "x \<noteq> l" by simp
  have ch: "\<And>c. c \<in> set cs \<Longrightarrow> dfs_shape N (Some x) (graft m l (set as) c)"
  proof -
    fix c assume c: "c \<in> set cs"
    show "dfs_shape N (Some x) (graft m l (set as) c)"
    proof (rule Node.IH [OF c sh [OF c]])
      show "Some x \<noteq> Some l" using xl by simp
      show "\<forall>x\<in>set (labels c). x \<noteq> l \<and> (x \<noteq> m \<longrightarrow> l \<notin> set (N x))"
        using Node.prems(3) c by auto
    qed
  qed
  have lab': "map label ?cs = map label cs" by (simp add: label_graft)
  show ?case
  proof (cases "x = m")
    case False
    with Node.prems(3) have "l \<notin> set (N x)" by simp
    then have "?N' x = N x" by (auto simp: filter_id_conv)
    with lab lab' False ch show ?thesis by simp
  next
    case True
    from dm Nm have dis: "l \<notin> set as" "l \<notin> set bs" "set as \<inter> set bs = {}" by auto
    have "filter (\<lambda>y. y \<noteq> l) as = as" "filter (\<lambda>y. y \<noteq> l) bs = bs"
      using dis by (auto simp: filter_id_conv)
    then have "?N' m = as @ bs" using Nm by simp
    then have "map label cs = filter (\<lambda>y. Some y \<noteq> p) (as @ bs)"
      using lab True by (simp only:)
    then have "map label ?cs = filter (\<lambda>y. Some y \<noteq> p) as @ filter (\<lambda>y. Some y \<noteq> p) bs"
      unfolding lab' by simp
    then have sp: "map label (takeWhile ?P ?cs) = filter (\<lambda>y. Some y \<noteq> p) as
        \<and> map label (dropWhile ?P ?cs) = filter (\<lambda>y. Some y \<noteq> p) bs"
      by (rule take_drop_While_split) (use dis in auto)
    have l1: "map label (takeWhile ?P ?cs @ Node l [] # dropWhile ?P ?cs)
        = filter (\<lambda>y. Some y \<noteq> p) (N m)"
      using sp Node.prems(2) Nm by simp
    have l2: "\<forall>c\<in>set (takeWhile ?P ?cs @ Node l [] # dropWhile ?P ?cs). dfs_shape N (Some m) c"
    proof
      fix c assume "c \<in> set (takeWhile ?P ?cs @ Node l [] # dropWhile ?P ?cs)"
      then consider "c \<in> set (takeWhile ?P ?cs)" | "c = Node l []" | "c \<in> set (dropWhile ?P ?cs)"
        by auto
      then show "dfs_shape N (Some m) c"
      proof cases
        case 1
        then have "c \<in> set ?cs" by (rule set_takeWhileD [THEN conjunct1])
        with ch True show ?thesis by auto
      next
        case 2
        with Nl show ?thesis by simp
      next
        case 3
        then have "c \<in> set ?cs" by (rule set_dropWhileD)
        with ch True show ?thesis by auto
      qed
    qed
    from True l1 l2 show ?thesis by (simp del: map_append set_append)
  qed
qed

lemma dfs_from_shape:
  "dfs_shape (neighbors g) p t \<Longrightarrow> size_subtree t \<le> Suc f \<Longrightarrow> dfs_from f g p (label t) = t"
proof (induction f arbitrary: p t)
  case 0
  obtain x cs where t: "t = Node x cs" by (cases t)
  with 0 have "cs = []" using size_one_leaf [of x cs] size_subtree_pos [of t] by simp
  with t show ?case by simp
next
  case (Suc f)
  obtain x cs where t: "t = Node x cs" by (cases t)
  from Suc.prems(1) t have lab: "map label cs = filter (\<lambda>y. Some y \<noteq> p) (neighbors g x)"
    and sh: "\<And>c. c \<in> set cs \<Longrightarrow> dfs_shape (neighbors g) (Some x) c" by auto
  have "\<And>c. c \<in> set cs \<Longrightarrow> dfs_from f g (Some x) (label c) = c"
  proof -
    fix c assume c: "c \<in> set cs"
    then have "size_subtree c \<le> sum_list (map size_subtree cs)"
      by (simp add: member_le_sum_list)
    with Suc.prems(2) t have "size_subtree c \<le> Suc f" by simp
    with sh [OF c] show "dfs_from f g (Some x) (label c) = c" by (rule Suc.IH)
  qed
  then have "map (\<lambda>c. dfs_from f g (Some x) (label c)) cs = cs"
    by (simp add: map_idI)
  then have "map (dfs_from f g (Some x)) (map label cs) = cs" by (simp add: comp_def)
  with lab t show ?case by simp
qed

lemma deg_ge: "N x \<noteq> [] \<Longrightarrow> 1 \<le> deg N x"
  by (cases "N x") (simp_all add: deg_def)

lemma deg_one:
  assumes "deg N l = 1"
  shows "\<exists>m. N l = [m] \<and> m \<noteq> l"
proof -
  from assms have len: "length (N l) + length (filter (\<lambda>y. y = l) (N l)) = 1"
    by (simp add: deg_def)
  have "length (filter (\<lambda>y. y = l) (N l)) \<le> length (N l)" by simp
  with len have 1: "length (N l) = 1" and 2: "length (filter (\<lambda>y. y = l) (N l)) = 0" by arith+
  from 1 obtain m where m: "N l = [m]" by (cases "N l") auto
  with 2 have "m \<noteq> l" by (auto split: if_splits)
  with m show ?thesis by blast
qed

lemma linked_neighbour:
  assumes "linked V N" and "x \<in> V" and "y \<in> V" and "x \<noteq> y"
  shows "N x \<noteq> []"
proof -
  from assms have "(x, y) \<in> (adj V N)\<^sup>*" by (simp add: linked_def)
  then show ?thesis
  proof (rule converse_rtranclE)
    assume "x = y"
    with assms(4) show ?thesis by simp
  next
    fix z assume "(x, z) \<in> adj V N"
    then show ?thesis by (auto simp: adj_def)
  qed
qed

lemma exists_leaf:
  assumes "finite V" and "sum (deg N) V < 2 * card V"
  shows "\<exists>l\<in>V. deg N l < 2"
proof (rule ccontr)
  assume "\<not> ?thesis"
  then have "\<And>x. x \<in> V \<Longrightarrow> 2 \<le> deg N x" by (auto simp: not_less)
  then have "sum (\<lambda>_. 2) V \<le> sum (deg N) V" by (intro sum_mono)
  with assms show False by simp
qed

lemma wf_adj_cut: "wf_adj V N \<Longrightarrow> wf_adj (V - {l}) (cut l N)"
  unfolding wf_adj_def cut_def by auto

lemma linked_cut:
  assumes wf: "wf_adj V N" and li: "linked V N" and Nl: "N l = [m]" and lV: "l \<in> V"
    and ml: "m \<noteq> l"
  shows "linked (V - {l}) (cut l N)"
proof -
  let ?E = "adj V N"
  let ?E' = "adj (V - {l}) (cut l N)"
  have step: "(x, if y = l then m else y) \<in> ?E'\<^sup>*" if xy: "(x, y) \<in> ?E\<^sup>*" and xl: "x \<noteq> l" for x y
    using xy
  proof (induction rule: rtrancl_induct)
    case base
    with xl show ?case by simp
  next
    case (step y z)
    note IH = step.IH
    from step.hyps(2) have yz: "y \<in> V" "z \<in> set (N y)" by (auto simp: adj_def)
    show ?case
    proof (cases "z = l")
      case True
      with yz wf have "y \<in> set (N l)" by (auto simp: wf_adj_def)
      with Nl have "y = m" by simp
      with IH ml True show ?thesis by simp
    next
      case False
      show ?thesis
      proof (cases "y = l")
        case True
        with yz Nl have "z = m" by simp
        with IH True False show ?thesis by simp
      next
        case yl: False
        with yz False have "(y, z) \<in> ?E'" by (simp add: adj_def cut_def)
        moreover from IH yl have "(x, y) \<in> ?E'\<^sup>*" by simp
        ultimately have "(x, z) \<in> ?E'\<^sup>*" by (rule rtrancl_into_rtrancl [rotated])
        with False show ?thesis by simp
      qed
    qed
  qed
  show ?thesis
    unfolding linked_def
  proof (intro ballI)
    fix x y assume "x \<in> V - {l}" "y \<in> V - {l}"
    with li have "(x, y) \<in> ?E\<^sup>*" "x \<noteq> l" "y \<noteq> l" by (auto simp: linked_def)
    from step [OF this(1,2)] this(3) show "(x, y) \<in> ?E'\<^sup>*" by simp
  qed
qed

lemma length_filter_filter_le: "length (filter Q (filter P xs)) \<le> length (filter Q xs)"
  by (induction xs) auto

lemma deg_cut_le: "deg (cut l N) x \<le> deg N x"
proof -
  have "length (filter (\<lambda>y. y \<noteq> l) (N x)) \<le> length (N x)" by simp
  moreover have "length (filter (\<lambda>y. y = x) (filter (\<lambda>y. y \<noteq> l) (N x)))
      \<le> length (filter (\<lambda>y. y = x) (N x))" by (rule length_filter_filter_le)
  ultimately show ?thesis unfolding deg_def cut_def by (rule add_mono)
qed

lemma deg_cut_less:
  assumes "l \<in> set (N m)"
  shows "deg (cut l N) m + 1 \<le> deg N m"
proof -
  have "length (filter (\<lambda>y. y \<noteq> l) (N m)) < length (N m)"
    using assms by (rule length_filter_less) simp
  moreover have "length (filter (\<lambda>y. y = m) (filter (\<lambda>y. y \<noteq> l) (N m)))
      \<le> length (filter (\<lambda>y. y = m) (N m))" by (rule length_filter_filter_le)
  ultimately show ?thesis unfolding deg_def cut_def by linarith
qed

lemma sum_deg_cut:
  assumes fin: "finite V" and lV: "l \<in> V" and mV: "m \<in> V" and ml: "m \<noteq> l"
    and Nl: "N l = [m]" and lm: "l \<in> set (N m)"
  shows "sum (deg (cut l N)) (V - {l}) + 2 \<le> sum (deg N) V"
proof -
  let ?V = "V - {l}"
  have dl: "deg N l = 1" using Nl ml by (simp add: deg_def)
  have f': "finite ?V" and mV': "m \<in> ?V" using fin mV ml by simp_all
  have 1: "sum (deg N) V = deg N l + sum (deg N) ?V" using fin lV by (rule sum.remove)
  have 2: "sum (deg N) ?V = deg N m + sum (deg N) (?V - {m})" using f' mV' by (rule sum.remove)
  have 3: "sum (deg (cut l N)) ?V = deg (cut l N) m + sum (deg (cut l N)) (?V - {m})"
    using f' mV' by (rule sum.remove)
  have 4: "sum (deg (cut l N)) (?V - {m}) \<le> sum (deg N) (?V - {m})"
    by (intro sum_mono deg_cut_le)
  have 5: "deg (cut l N) m + 1 \<le> deg N m" using lm by (rule deg_cut_less)
  from dl 1 2 3 4 5 show ?thesis by linarith
qed

lemma shape_exists:
  "wf_adj V N \<Longrightarrow> linked V N \<Longrightarrow> sum (deg N) V < 2 * card V \<Longrightarrow> rt \<in> V
     \<Longrightarrow> \<exists>t. label t = rt \<and> dfs_shape N None t \<and> distinct (labels t) \<and> set (labels t) = V"
proof (induction "card V" arbitrary: V N rt)
  case 0
  then have "V = {}" by (simp add: wf_adj_def)
  with 0 show ?case by simp
next
  case (Suc n)
  note wf = Suc.prems(1) and li = Suc.prems(2) and su = Suc.prems(3) and rt = Suc.prems(4)
  from wf have fin: "finite V" by (simp add: wf_adj_def)
  show ?case
  proof (cases "n = 0")
    case True
    with Suc.hyps(2) have "card V = 1" by simp
    then obtain v where "V = {v}" by (auto simp: card_1_singleton_iff)
    with rt have V: "V = {rt}" by simp
    with su have d2: "deg N rt < 2" by simp
    have sub: "set (N rt) \<subseteq> {rt}" using wf V by (auto simp: wf_adj_def)
    have "N rt = []"
    proof (cases "N rt")
      case Nil
      then show ?thesis .
    next
      case (Cons a as)
      with sub have "a = rt" by simp
      with Cons d2 show ?thesis by (simp add: deg_def)
    qed
    then have "dfs_shape N None (Node rt [])" by simp
    with V show ?thesis by (intro exI [of _ "Node rt []"]) simp
  next
    case False
    then have c2: "2 \<le> card V" using Suc.hyps(2) by simp
    have ne: "N x \<noteq> []" if x: "x \<in> V" for x
    proof -
      have "V - {x} \<noteq> {}"
      proof
        assume "V - {x} = {}"
        with x have "V = {x}" by auto
        with c2 show False by simp
      qed
      then obtain y where "y \<in> V" "x \<noteq> y" by auto
      with li x show ?thesis by (intro linked_neighbour [of V N x y])
    qed
    obtain l where l: "l \<in> V" "deg N l < 2" using exists_leaf [OF fin su] by blast
    with ne [of l] deg_ge [of N l] have "deg N l = 1" by simp
    then obtain m where Nl: "N l = [m]" and ml: "m \<noteq> l" using deg_one by blast
    have mV: "m \<in> V" and lm: "l \<in> set (N m)" using wf l(1) Nl by (auto simp: wf_adj_def)
    let ?V = "V - {l}"
    let ?N = "cut l N"
    have card': "n = card ?V" using Suc.hyps(2) l(1) fin by simp
    have wf': "wf_adj ?V ?N" using wf by (rule wf_adj_cut)
    have li': "linked ?V ?N" using wf li Nl l(1) ml by (rule linked_cut)
    have su': "sum (deg ?N) ?V < 2 * card ?V"
      using sum_deg_cut [OF fin l(1) mV ml Nl lm] su card' Suc.hyps(2) by simp
    note IH = Suc.hyps(1) [OF card' wf' li' su']
    have nol: "l \<notin> set (N x)" if "x \<in> V" "x \<noteq> m" for x
    proof
      assume "l \<in> set (N x)"
      with wf that(1) have "x \<in> set (N l)" by (auto simp: wf_adj_def)
      with Nl that(2) show False by simp
    qed
    have same: "?N x = N x" if "x \<in> V" "x \<noteq> m" for x
      using nol [OF that] by (auto simp: cut_def filter_id_conv)
    show ?thesis
    proof (cases "rt = l")
      case True
      from mV ml have "m \<in> ?V" by simp
      from IH [OF this] obtain t' where t': "label t' = m" "dfs_shape ?N None t'"
        "distinct (labels t')" "set (labels t') = ?V" by blast
      obtain cs where tn: "t' = Node m cs" using t'(1) by (cases t') simp
      from t'(2) tn have lab: "map label cs = ?N m"
        and sh: "\<And>c. c \<in> set cs \<Longrightarrow> dfs_shape ?N (Some m) c" by simp_all
      have lab': "map label cs = filter (\<lambda>y. Some y \<noteq> Some l) (N m)"
        using lab by (simp add: cut_def)
      have ch: "dfs_shape N (Some m) c" if c: "c \<in> set cs" for c
      proof (rule dfs_shape_transfer [OF sh [OF c]])
        show "\<forall>x\<in>set (labels c). ?N x = N x"
        proof
          fix x assume "x \<in> set (labels c)"
          with c tn t'(3,4) have "x \<in> V" "x \<noteq> m" by auto
          then show "?N x = N x" by (rule same)
        qed
      qed
      have s: "dfs_shape N (Some l) t'"
        unfolding tn using lab' ch by (simp only: dfs_shape.simps simp_thms) blast
      have 1: "dfs_shape N None (Node l [t'])" using Nl t'(1) s by simp
      have 2: "distinct (labels (Node l [t']))" using t'(3,4) by simp
      have 3: "set (labels (Node l [t'])) = V" using t'(4) l(1) by auto
      from 1 2 3 True show ?thesis by (intro exI [of _ "Node l [t']"]) simp
    next
      case False
      with rt have "rt \<in> ?V" by simp
      from IH [OF this] obtain t' where t': "label t' = rt" "dfs_shape ?N None t'"
        "distinct (labels t')" "set (labels t') = ?V" by blast
      obtain as bs where Nm: "N m = as @ l # bs" using lm by (auto simp: in_set_conv_decomp)
      have dm: "distinct (N m)" using wf mV by (simp add: wf_adj_def)
      let ?t = "graft m l (set as) t'"
      have sh: "dfs_shape N None ?t"
      proof (rule dfs_shape_graft [OF Nm dm Nl])
        show "dfs_shape (\<lambda>x. filter (\<lambda>y. y \<noteq> l) (N x)) None t'"
          using t'(2) by (simp add: cut_def)
        show "None \<noteq> Some l" by simp
        show "\<forall>x\<in>set (labels t'). x \<noteq> l \<and> (x \<noteq> m \<longrightarrow> l \<notin> set (N x))"
          using t'(4) nol by auto
      qed
      have cnt: "count_list (labels ?t) a
          = count_list (labels t') a + (if a = l then count_list (labels t') m else 0)" for a
        by (rule count_labels_graft)
      have le1: "count_list (labels t') a \<le> 1" for a
        using t'(3) by (simp add: distinct_count_list)
      have cl: "count_list (labels t') l = 0" using t'(4) by (simp add: count_list_0_iff)
      have "0 < count_list (labels t') m" using t'(4) mV ml by (simp add: count_list_pos)
      with le1 [of m] have cm: "count_list (labels t') m = 1" by simp
      have "count_list (labels ?t) a \<le> 1" for a
        using cnt [of a] le1 [of a] cl cm by (cases "a = l") simp_all
      then have 2: "distinct (labels ?t)" by (simp add: distinct_count_list)
      have 3: "set (labels ?t) = V"
      proof (rule set_eqI)
        fix a
        have "a \<in> set (labels ?t) \<longleftrightarrow> 0 < count_list (labels ?t) a"
          by (simp add: count_list_pos)
        also have "\<dots> \<longleftrightarrow> a = l \<or> 0 < count_list (labels t') a"
          using cnt [of a] cl cm by (cases "a = l") simp_all
        also have "\<dots> \<longleftrightarrow> a = l \<or> a \<in> ?V" using t'(4) by (simp add: count_list_pos)
        also have "\<dots> \<longleftrightarrow> a \<in> V" using l(1) by auto
        finally show "a \<in> set (labels ?t) \<longleftrightarrow> a \<in> V" .
      qed
      have 1: "label ?t = rt" using t'(1) by (simp add: label_graft)
      from 1 sh 2 3 show ?thesis by blast
    qed
  qed
qed

lemma neighbors_entry: "distinct (nodes g) \<Longrightarrow> (x, ns) \<in> set g \<Longrightarrow> neighbors g x = ns"
  by (simp add: neighbors_def nodes_def)

lemma wf_graph_adj:
  assumes "wf_graph g"
  shows "wf_adj (set (nodes g)) (neighbors g)"
proof -
  from assms have d: "distinct (nodes g)" by (simp add: wf_graph_def)
  have "distinct (neighbors g x) \<and> set (neighbors g x) \<subseteq> set (nodes g)
      \<and> (\<forall>y\<in>set (neighbors g x). x \<in> set (neighbors g y))" if "x \<in> set (nodes g)" for x
  proof -
    from that obtain ns where xn: "(x, ns) \<in> set g" by (auto simp: nodes_def)
    have nb: "neighbors g x = ns" using d xn by (rule neighbors_entry)
    from assms xn have "distinct ns \<and> (\<forall>y\<in>set ns. y \<in> set (nodes g) \<and> x \<in> set (neighbors g y))"
      by (auto simp: wf_graph_def list_all_iff)
    then show ?thesis unfolding nb by blast
  qed
  then show ?thesis unfolding wf_adj_def by simp
qed

lemma deg_degree: "deg (neighbors g) x = degree g x"
  by (simp add: deg_def degree_def)

lemma plain_bfs_subset:
  "set seen \<subseteq> R \<Longrightarrow> (\<And>x. x \<in> R \<Longrightarrow> set (neighbors g x) \<subseteq> R) \<Longrightarrow> set (plain_bfs f g seen) \<subseteq> R"
proof (induction f arbitrary: seen)
  case 0
  then show ?case by simp
next
  case (Suc f)
  have "set (remdups (seen @ concat (map (neighbors g) seen))) \<subseteq> R"
    using Suc.prems by auto
  then have "set (plain_bfs f g (remdups (seen @ concat (map (neighbors g) seen)))) \<subseteq> R"
    using Suc.prems(2) by (rule Suc.IH)
  then show ?case by simp
qed

lemma plain_bfs_distinct: "distinct seen \<Longrightarrow> distinct (plain_bfs f g seen)"
  by (induction f arbitrary: seen) simp_all

lemma is_connected_linked:
  assumes wf: "wf_graph g" and ne: "g \<noteq> []" and co: "is_connected g"
  shows "linked (set (nodes g)) (neighbors g)"
proof -
  let ?V = "set (nodes g)"
  let ?N = "neighbors g"
  let ?E = "adj ?V ?N"
  have wa: "wf_adj ?V ?N" using wf by (rule wf_graph_adj)
  from wf have d: "distinct (nodes g)" by (simp add: wf_graph_def)
  obtain v where v: "take 1 (nodes g) = [v]" "v \<in> ?V"
    using ne by (cases g) (auto simp: nodes_def)
  define R where "R = {y \<in> ?V. (v, y) \<in> ?E\<^sup>*}"
  define bfs where "bfs = plain_bfs (length g) g [v]"
  have sub: "set bfs \<subseteq> R"
    unfolding bfs_def
  proof (rule plain_bfs_subset)
    show "set [v] \<subseteq> R" using v by (simp add: R_def)
  next
    fix x assume "x \<in> R"
    then have x: "x \<in> ?V" "(v, x) \<in> ?E\<^sup>*" by (simp_all add: R_def)
    show "set (?N x) \<subseteq> R"
    proof
      fix y assume y: "y \<in> set (?N x)"
      with x(1) wa have "y \<in> ?V" by (auto simp: wf_adj_def)
      moreover from x(1) y have "(x, y) \<in> ?E" by (simp add: adj_def)
      with x(2) have "(v, y) \<in> ?E\<^sup>*" by (rule rtrancl_into_rtrancl)
      ultimately show "y \<in> R" by (simp add: R_def)
    qed
  qed
  have "distinct bfs" unfolding bfs_def by (rule plain_bfs_distinct) simp
  then have "card (set bfs) = length bfs" by (rule distinct_card)
  also have "\<dots> = length g" using co v(1) by (simp add: is_connected_def bfs_def)
  finally have cb: "card (set bfs) = length g" .
  have cV: "card ?V = length g" using distinct_card [OF d] by (simp add: nodes_def)
  have RV: "R \<subseteq> ?V" by (auto simp: R_def)
  then have fR: "finite R" by (rule finite_subset) simp
  have "card (set bfs) \<le> card R" using fR sub by (rule card_mono)
  with cb cV have "card ?V \<le> card R" by simp
  with RV have "R = ?V" by (intro card_seteq) simp_all
  then have reach: "\<And>y. y \<in> ?V \<Longrightarrow> (v, y) \<in> ?E\<^sup>*" by (auto simp: R_def)
  have "sym ?E"
  proof (rule symI)
    fix x y assume "(x, y) \<in> ?E"
    then have "x \<in> ?V" "y \<in> set (?N x)" by (simp_all add: adj_def)
    with wa have "y \<in> ?V" "x \<in> set (?N y)" by (auto simp: wf_adj_def)
    then show "(y, x) \<in> ?E" by (simp add: adj_def)
  qed
  then have sy: "sym (?E\<^sup>*)" by (rule sym_rtrancl)
  show ?thesis
    unfolding linked_def
  proof (intro ballI)
    fix x y assume "x \<in> ?V" "y \<in> ?V"
    then have "(v, x) \<in> ?E\<^sup>*" "(v, y) \<in> ?E\<^sup>*" by (simp_all add: reach)
    from symD [OF sy this(1)] this(2) show "(x, y) \<in> ?E\<^sup>*" by (rule rtrancl_trans)
  qed
qed

lemma length_labels: "length (labels t) = size_subtree t"
proof (induction t)
  case (Node x cs)
  have "map (\<lambda>c. length (labels c)) cs = map size_subtree cs"
    using Node.IH by (intro map_ext) simp
  then have "sum_list (map (\<lambda>c. length (labels c)) cs) = sum_list (map size_subtree cs)"
    by (simp only:)
  moreover have "length (concat (map labels cs)) = sum_list (map (\<lambda>c. length (labels c)) cs)"
    by (simp add: length_concat comp_def)
  ultimately show ?case by simp
qed

lemma label_in_labels: "label t \<in> set (labels t)"
  by (cases t) simp

lemma shape_no_loop:
  "dfs_shape N p t \<Longrightarrow> distinct (labels t) \<Longrightarrow> p \<noteq> Some (label t) \<Longrightarrow> x \<in> set (labels t)
     \<Longrightarrow> x \<notin> set (N x)"
proof (induction t arbitrary: p)
  case (Node u cs)
  from Node.prems(1) have lab: "map label cs = filter (\<lambda>y. Some y \<noteq> p) (N u)"
    and sh: "\<And>c. c \<in> set cs \<Longrightarrow> dfs_shape N (Some u) c" by auto
  from Node.prems(2) have un: "u \<notin> set (concat (map labels cs))"
    and dc: "distinct (concat (map labels cs))" by simp_all
  have lc: "label c \<noteq> u" if "c \<in> set cs" for c
  proof
    assume "label c = u"
    with label_in_labels [of c] that have "u \<in> set (concat (map labels cs))" by auto
    with un show False ..
  qed
  show ?case
  proof (cases "x = u")
    case True
    show ?thesis
    proof
      assume "x \<in> set (N x)"
      with True Node.prems(3) have "u \<in> set (filter (\<lambda>y. Some y \<noteq> p) (N u))" by simp
      with lab have "u \<in> set (map label cs)" by simp
      then obtain c where "c \<in> set cs" "label c = u" by auto
      with lc show False by blast
    qed
  next
    case False
    with Node.prems(4) obtain c where c: "c \<in> set cs" "x \<in> set (labels c)" by auto
    show ?thesis
    proof (rule Node.IH [OF c(1) sh [OF c(1)] _ _ c(2)])
      show "distinct (labels c)" using dc c(1) by (rule distinct_concat_elem)
      show "Some u \<noteq> Some (label c)" using lc [OF c(1)] by simp
    qed
  qed
qed

lemma shape_subtree:
  "dfs_shape N p t \<Longrightarrow> s \<in> set (subtrees t)
     \<Longrightarrow> s = t \<or> (\<exists>y\<in>set (labels t). label s \<in> set (N y)
           \<and> map label (succs s) = filter (\<lambda>z. z \<noteq> y) (N (label s)))"
proof (induction t arbitrary: p)
  case (Node u cs)
  from Node.prems(1) have lab: "map label cs = filter (\<lambda>y. Some y \<noteq> p) (N u)"
    and sh: "\<And>c. c \<in> set cs \<Longrightarrow> dfs_shape N (Some u) c" by auto
  show ?case
  proof (cases "s = Node u cs")
    case True
    then show ?thesis by simp
  next
    case False
    with Node.prems(2) obtain c where c: "c \<in> set cs" "s \<in> set (subtrees c)" by auto
    from Node.IH [OF c(1) sh [OF c(1)] c(2)]
    consider "s = c" | y where "y \<in> set (labels c)" "label s \<in> set (N y)"
      "map label (succs s) = filter (\<lambda>z. z \<noteq> y) (N (label s))" by blast
    then show ?thesis
    proof cases
      case 1
      from c(1) have "label c \<in> set (map label cs)" by simp
      with lab have a: "label c \<in> set (N u)" by simp
      obtain v ds where cv: "c = Node v ds" by (cases c)
      with sh [OF c(1)] have "map label ds = filter (\<lambda>z. z \<noteq> u) (N v)" by simp
      with a cv 1 show ?thesis by simp
    next
      case 2
      from 2(1) c(1) have "y \<in> set (labels (Node u cs))" by auto
      with 2(2,3) show ?thesis by blast
    qed
  qed
qed

lemma length_filter_neq:
  "distinct xs \<Longrightarrow> y \<in> set xs \<Longrightarrow> length (filter (\<lambda>z. z \<noteq> y) xs) + 1 = length xs"
proof (induction xs)
  case Nil
  then show ?case by simp
next
  case (Cons x xs)
  show ?case
  proof (cases "x = y")
    case True
    with Cons.prems have "y \<notin> set xs" by simp
    then have "filter (\<lambda>z. z \<noteq> y) xs = xs" by (auto simp: filter_id_conv)
    with True show ?thesis by simp
  next
    case False
    with Cons show ?thesis by simp
  qed
qed

lemma dfs_tree_shape:
  assumes wf: "wf_graph g" and tr: "is_tree g = Inr True" and rt: "rt \<in> set (nodes g)"
  shows "dfs_shape (neighbors g) None (dfs_tree g rt)"
    and "distinct (labels (dfs_tree g rt))"
    and "set (labels (dfs_tree g rt)) = set (nodes g)"
proof -
  let ?V = "set (nodes g)"
  let ?N = "neighbors g"
  have wa: "wf_adj ?V ?N" using wf by (rule wf_graph_adj)
  from wf have d: "distinct (nodes g)" by (simp add: wf_graph_def)
  from tr have ne: "g \<noteq> []" and ed: "int (length g) - 1 = int (number_of_edges g)"
    and co: "is_connected g" by (auto simp: is_tree_def split: if_splits)
  have cV: "card ?V = length g" using distinct_card [OF d] by (simp add: nodes_def)
  have li: "linked ?V ?N" using wf ne co by (rule is_connected_linked)
  have "sum (deg ?N) ?V = sum_list (map (degree g) (nodes g))"
    using d by (simp add: sum_list_distinct_conv_sum_set deg_degree [abs_def])
  moreover have "sum_list (map (degree g) (nodes g)) div 2 + 1 = length g"
    using ed ne by (simp add: number_of_edges_def)
  ultimately have su: "sum (deg ?N) ?V < 2 * card ?V" unfolding cV by linarith
  from shape_exists [OF wa li su rt] obtain t where t: "label t = rt" "dfs_shape ?N None t"
    "distinct (labels t)" "set (labels t) = ?V" by blast
  have "size_subtree t = length (labels t)" by (simp add: length_labels)
  also have "\<dots> = card ?V" using distinct_card [OF t(3)] t(4) by simp
  finally have "size_subtree t \<le> Suc (length g)" using cV by simp
  with t(2) have "dfs_from (length g) g None (label t) = t" by (rule dfs_from_shape)
  then have eq: "dfs_tree g rt = t" by (simp add: dfs_tree_def t(1))
  show "dfs_shape ?N None (dfs_tree g rt)" unfolding eq by (rule t(2))
  show "distinct (labels (dfs_tree g rt))" unfolding eq by (rule t(3))
  show "set (labels (dfs_tree g rt)) = ?V" unfolding eq by (rule t(4))
qed

lemma dfs_tree_rooted_view:
  assumes wf: "wf_graph g" and tr: "is_tree g = Inr True" and rt: "rt \<in> set (nodes g)"
  shows "rooted_view g (dfs_tree g rt)"
proof -
  let ?V = "set (nodes g)"
  let ?N = "neighbors g"
  define t where "t = dfs_tree g rt"
  have wa: "wf_adj ?V ?N" using wf by (rule wf_graph_adj)
  from wf have d: "distinct (nodes g)" by (simp add: wf_graph_def)
  note t = dfs_tree_shape [OF wf tr rt, folded t_def]
  have dg: "degree g (label s) = length (predecessors t (label s)) + length (succs s)"
    if s: "s \<in> set (subtrees t)" for s
  proof -
    have sl: "label s \<in> set (labels t)" using s by (rule subtree_label_in)
    have pl: "length (predecessors t (label s)) = (if label s = label t then 0 else 1)"
      using sl by (rule predecessors_length)
    have "label s \<notin> set (?N (label s))"
      using t(1,2) _ sl by (rule shape_no_loop) simp
    then have "filter (\<lambda>y. y = label s) (?N (label s)) = []"
      by (auto simp: filter_empty_conv)
    then have de: "degree g (label s) = length (?N (label s))" by (simp add: degree_def)
    from shape_subtree [OF t(1) s]
    consider "s = t" | y where "s \<noteq> t" "y \<in> set (labels t)" "label s \<in> set (?N y)"
      "map label (succs s) = filter (\<lambda>z. z \<noteq> y) (?N (label s))" by blast
    then show ?thesis
    proof cases
      case 1
      obtain x cs where tn: "t = Node x cs" by (cases t)
      with t(1) have "map label cs = ?N x" by simp
      then have "length (map label cs) = length (?N x)" by (simp only:)
      then have "length cs = length (?N x)" by simp
      with 1 tn pl de show ?thesis by simp
    next
      case 2
      from subtree_label_eq [OF t(2) s] 2(1) have "label s \<noteq> label t" by blast
      with pl have p1: "length (predecessors t (label s)) = 1" by simp
      from 2(2) t(3) have "y \<in> ?V" by simp
      with wa 2(3) have yin: "y \<in> set (?N (label s))" by (auto simp: wf_adj_def)
      from wa sl t(3) have "distinct (?N (label s))" by (auto simp: wf_adj_def)
      from length_filter_neq [OF this yin]
      have "length (filter (\<lambda>z. z \<noteq> y) (?N (label s))) + 1 = length (?N (label s))" .
      moreover have "length (map label (succs s))
          = length (filter (\<lambda>z. z \<noteq> y) (?N (label s)))"
        using 2(4) by (simp only:)
      ultimately show ?thesis using p1 de by simp
    qed
  qed
  show ?thesis
    unfolding t_def [symmetric] rooted_view_def list_all_iff using d t(2,3) dg by blast
qed

subsection \<open>The witness, for every tree\<close>

text \<open>
  Claim C10. On a tree, for a budget \<open>b\<close> with \<open>2 \<le> b < |L|\<close>, both optimisers return a
  finite objective and a witness of exactly \<open>b\<close> pairwise distinct leaves of the tree,
  whichever non-leaf root is drawn. A valid tree is a graph as networkx builds it
  (\<open>wf_graph\<close>) that \<^verbatim>\<open>nx.is_tree\<close> accepts.
\<close>

theorem witness_is_budget_many_leaves:
  assumes wf: "wf_graph tree" and tr: "is_tree tree = Inr True" and b2: "2 \<le> budget"
    and bl: "budget < int (length (find_leaves tree))"
  shows "(\<exists>e w. prob_err_optimal_placement r tree budget = Inr (Fin e, w)
            \<and> int (length w) = budget \<and> distinct w \<and> set w \<subseteq> set (find_leaves tree))
       \<and> (\<exists>e w. exp_dist_optimal_placement r tree budget = Inr (Fin e, w)
            \<and> int (length w) = budget \<and> distinct w \<and> set w \<subseteq> set (find_leaves tree))"
proof -
  define b where "b = nat budget"
  have b: "2 \<le> b" "b < length (find_leaves tree)" "int b = budget"
    using b2 bl by (simp_all add: b_def)
  have nl: "non_leaves tree \<noteq> []"
    by (rule non_leaves_nonempty [OF tr]) (use b in simp)
  define rt where "rt = non_leaves tree ! (r mod length (non_leaves tree))"
  have rc: "random_choice r (non_leaves tree) = Inr rt"
    by (simp add: random_choice_def nl rt_def)
  then have rtin: "rt \<in> set (non_leaves tree)" by (rule random_choice_mem)
  define t where "t = dfs_tree tree rt"
  have view: "rooted_view tree t"
    unfolding t_def using wf tr non_leaves_nodes [OF rtin] by (rule dfs_tree_rooted_view)
  have lt: "label t = rt" by (simp add: t_def label_dfs_tree)
  have n1: "length tree \<noteq> 1"
  proof
    assume "length tree = 1"
    then have "length (find_leaves tree) = 1" by (simp add: find_leaves_def length_nodes)
    with b show False by simp
  qed
  have two: "2 \<le> length (succs t)"
    by (rule root_two_successors [OF view _ n1]) (simp add: lt rtin)
  note lv = rooted_view_leaves [OF view two n1]
  have dl: "distinct (labels t)" using view by (simp add: rooted_view_def)
  have nb: "\<not> int (length (find_leaves tree)) \<le> budget" using bl by simp
  have "b \<le> length (leaf_labels t)" using b lv by simp
  from prob_err_root [OF dl this, of rt]
  obtain a where a: "fst (prob_err_opt rt b t b) = Fin a"
    and gw: "good_witness (snd (prob_err_opt rt b t b)) b (leaf_labels t)" by blast
  have pe: "prob_err_optimal_placement r tree budget
      = Inr (Fin (rat_of_nat a / rat_of_nat (length tree)), snd (prob_err_opt rt b t b))"
    using tr b2 nb rc a
    by (simp add: prob_err_optimal_placement_def Let_def scale_def t_def [symmetric] b_def [symmetric])
  have P: "\<exists>e w. prob_err_optimal_placement r tree budget = Inr (Fin e, w)
            \<and> int (length w) = budget \<and> distinct w \<and> set w \<subseteq> set (find_leaves tree)"
    using pe gw lv(1) b(3) unfolding good_witness_def by auto
  define D where "D = (\<lambda>u v. case path_length tree u v of Fin d \<Rightarrow> d | Infinity \<Rightarrow> 0)"
  define T where "T = \<lparr> arcs = t, root_attr = rt, budget_attr = b, dists = D \<rparr>"
  have Tf: "arcs T = t" "root_attr T = label t" "budget_attr T = b"
    by (simp_all add: T_def lt)
  have bT: "2 \<le> budget_attr T" "budget_attr T < length (leaf_labels t)"
    using b lv by (simp_all add: Tf)
  from exp_dist_root [OF dl Tf(1,2) two bT]
  obtain a' where a': "fst (exp_dist_opt T t b) = Fin a'"
    and gw': "good_witness (snd (exp_dist_opt T t b)) b (leaf_labels t)"
    unfolding Tf(3) by blast
  have pp: "preprocess tree rt
      = Inr \<lparr> arcs = t, root_attr = rt, budget_attr = 0, dists = D \<rparr>"
    using tr non_leaves_nodes [OF rtin] by (simp add: preprocess_def t_def D_def)
  have ed: "exp_dist_optimal_placement r tree budget
      = Inr (Fin (a' / rat_of_nat (length tree)), snd (exp_dist_opt T t b))"
    using b2 nb rc pp a'
    by (simp add: exp_dist_optimal_placement_def Let_def scale_def b_def [symmetric]
        T_def [symmetric] Tf(1))
  have E: "\<exists>e w. exp_dist_optimal_placement r tree budget = Inr (Fin e, w)
            \<and> int (length w) = budget \<and> distinct w \<and> set w \<subseteq> set (find_leaves tree)"
    using ed gw' lv(1) b(3) unfolding good_witness_def by auto
  from P E show ?thesis by (rule conjI)
qed

theorem witness_is_budget_many_leaves_witness:
  "wf_graph spider \<and> is_tree spider = Inr True \<and> (2::int) \<le> 2
   \<and> (2::int) < int (length (find_leaves spider))
   \<and> (\<exists>e w. prob_err_optimal_placement 1 spider 2 = Inr (Fin e, w)
            \<and> int (length w) = 2 \<and> distinct w \<and> set w \<subseteq> set (find_leaves spider))
   \<and> (\<exists>e w. exp_dist_optimal_placement 1 spider 2 = Inr (Fin e, w)
            \<and> int (length w) = 2 \<and> distinct w \<and> set w \<subseteq> set (find_leaves spider))"
proof -
  have 0: "wf_graph spider" by code_simp
  have 1: "is_tree spider = Inr True" by code_simp
  have 2: "(2::int) \<le> 2" by simp
  have 3: "(2::int) < int (length (find_leaves spider))" by code_simp
  from witness_is_budget_many_leaves [OF 0 1 2 3, of 1] 0 1 2 3 show ?thesis by blast
qed

end
